theory Spec2Isabelle
  imports Main "HOL-Library.AList" "HOL-Library.Sublist"
begin

section \<open>JavaScript strings\<close>

text \<open>
  A JavaScript string is a sequence of UTF-16 code units and \<open>s.length\<close> counts them.
  Strings are modelled as \<open>string\<close>, one \<open>char\<close> per code unit; this covers the code
  units below 0x100, which is every character the program's own literals use and enough
  for the non-ASCII inputs considered below (\<open>CHR 0xE9\<close> is U+00E9).
\<close>

definition endsWith :: "string \<Rightarrow> string \<Rightarrow> bool" where
  \<comment> \<open>\<open>s.endsWith(suf)\<close>\<close>
  "endsWith s suf = (length suf \<le> length s \<and> drop (length s - length suf) s = suf)"

fun startsWith :: "string \<Rightarrow> string \<Rightarrow> bool" where
  \<comment> \<open>\<open>s.startsWith(p)\<close>\<close>
  "startsWith s [] = True"
| "startsWith [] (p # ps) = False"
| "startsWith (c # cs) (p # ps) = (c = p \<and> startsWith cs ps)"

fun includes_str :: "string \<Rightarrow> string \<Rightarrow> bool" where
  \<comment> \<open>\<open>s.includes(sub)\<close>\<close>
  "includes_str [] sub = (sub = [])"
| "includes_str (c # cs) sub = (startsWith (c # cs) sub \<or> includes_str cs sub)"

fun split :: "char \<Rightarrow> string \<Rightarrow> string list" where
  \<comment> \<open>\<open>s.split(sep)\<close> for a one-character separator: the pieces between the separators\<close>
  "split sep [] = [[]]"
| "split sep (c # cs) =
     (if c = sep then [] # split sep cs
      else (case split sep cs of
              [] \<Rightarrow> [[c]]
            | p # ps \<Rightarrow> (c # p) # ps))"

section \<open>The client's constructor\<close>

definition constructor_workspaceRoot :: "string \<Rightarrow> string" where
  \<comment> \<open>\<open>workspaceRoot.includes('#') ? workspaceRoot.split('#')[0] : workspaceRoot\<close>\<close>
  "constructor_workspaceRoot workspaceRoot =
     (if includes_str workspaceRoot ''#''
      then (case split (CHR ''#'') workspaceRoot of p # _ \<Rightarrow> p | [] \<Rightarrow> [])
      else workspaceRoot)"


section \<open>Language id of a document\<close>

definition languageId :: "string \<Rightarrow> string" where
  \<comment> \<open>the \<open>if\<close> chain of \<open>openDocument\<close>, in the source's order\<close>
  "languageId filePath =
     (if endsWith filePath ''.js'' \<or> endsWith filePath ''.jsx'' then ''javascript''
      else if endsWith filePath ''.tsx'' then ''typescriptreact''
      else if endsWith filePath ''.jsx'' then ''javascriptreact''
      else ''typescript'')"

section \<open>Content-Length framing\<close>

definition CRLF2 :: string where
  \<comment> \<open>the four characters \<open>\r\n\r\n\<close>\<close>
  "CRLF2 = [CHR 0x0D, CHR 0x0A, CHR 0x0D, CHR 0x0A]"

definition isDigit :: "char \<Rightarrow> bool" where
  \<comment> \<open>the regular expression's \<open>\d\<close>\<close>
  "isDigit c = (c \<in> set ''0123456789'')"

definition digitValue :: "char \<Rightarrow> nat" where
  "digitValue c = of_char c - 48"

definition parseInt :: "string \<Rightarrow> nat" where
  \<comment> \<open>\<open>parseInt(s, 10)\<close> on a string of decimal digits\<close>
  "parseInt s = foldl (\<lambda>n c. 10 * n + digitValue c) 0 s"

fun decimal :: "nat \<Rightarrow> string" where
  \<comment> \<open>a non-negative integer inside a template literal: its decimal digits\<close>
  "decimal n =
     (if n < 10 then [''0123456789'' ! n]
      else decimal (n div 10) @ [''0123456789'' ! (n mod 10)])"

declare decimal.simps [simp del]

definition byteLength :: "string \<Rightarrow> nat" where
  \<comment> \<open>\<open>Buffer.byteLength(s)\<close>: the length of the UTF-8 encoding; a code unit below 0x80 takes
     one byte, one from 0x80 to 0xFF two\<close>
  "byteLength s = sum_list (map (\<lambda>c. if (of_char c :: nat) < 128 then 1 else 2) s)"

definition fullMessage :: "string \<Rightarrow> string" where
  \<comment> \<open>\<open>sendMessage\<close>: the text written to the subprocess for the JSON text \<open>messageStr\<close>\<close>
  "fullMessage messageStr =
     ''Content-Length: '' @ decimal (byteLength messageStr) @ CRLF2 @ messageStr"

definition matchHeaderAt :: "string \<Rightarrow> (string \<times> nat) option" where
  \<comment> \<open>the pattern \<open>Content-Length: (\d+)\r\n\r\n\<close> matched at the start of \<open>s\<close>: the digits
     of the group and the length of the whole match. \<open>\d+\<close> is greedy and the character
     after it must be \<open>\r\<close>, so the group is the whole run of digits.\<close>
  "matchHeaderAt s =
     (if startsWith s ''Content-Length: '' then
        (let rest = drop 16 s; ds = takeWhile isDigit rest
         in if ds \<noteq> [] \<and> startsWith (drop (length ds) rest) CRLF2
            then Some (ds, 16 + length ds + 4) else None)
      else None)"

fun matchHeader :: "string \<Rightarrow> (string \<times> nat) option" where
  \<comment> \<open>\<open>buffer.match(/Content-Length: (\d+)\r\n\r\n/)\<close>: the leftmost match, wherever it
     starts; the caller reads the group and the match's length, not its position\<close>
  "matchHeader [] = None"
| "matchHeader (c # cs) =
     (case matchHeaderAt (c # cs) of
        Some r \<Rightarrow> Some r
      | None \<Rightarrow> matchHeader cs)"

definition slice :: "string \<Rightarrow> nat \<Rightarrow> nat \<Rightarrow> string" where
  \<comment> \<open>\<open>s.slice(a, b)\<close> for indices that are not negative\<close>
  "slice s a b = take (b - a) (drop a s)"

section \<open>Messages and the client's state\<close>

datatype json = JNull | JBool bool | JNum int | JStr string
  | JArr "json list" | JObj "(string \<times> json) list"

datatype rpc_id = IdNum int | IdStr string | IdNull

record rpc_error =
  code :: int
  message :: string
  data :: "json option"

datatype rpc_error_value = ErrNull | ErrObject rpc_error

text \<open>
  The interface \<open>Message\<close>, as \<open>JSON.parse\<close> can fill it. An absent
  (\<open>undefined\<close>) field is \<open>None\<close>; a field that is JSON \<open>null\<close> is present:
  \<open>Some IdNull\<close>, \<open>Some JNull\<close>, \<open>Some ErrNull\<close>. The field \<open>jsonrpc\<close> is the
  constant \<open>'2.0'\<close> and is never read.
\<close>

record message =
  m_id :: "rpc_id option"
  m_method :: "string option"
  m_params :: "json option"
  m_result :: "json option"
  m_error :: "rpc_error_value option"

datatype js_error = Error string

datatype outcome = Resolved "json option" | Rejected js_error

text \<open>
  The fields of \<open>TypeScriptLSPClient\<close>, followed by the objects it acts on. A promise
  made by \<open>sendRequest\<close> is a cell of \<open>promises\<close> (\<open>None\<close> while it is unsettled);
  the \<open>resolve\<close>/\<open>reject\<close> pair kept in \<open>pendingRequests\<close> is the index of its cell.
  \<open>timers\<close> are the timeouts set and not yet run, each with the request id, the method
  and the promise of its callback and the time at which it is due; \<open>now\<close> is the time,
  in milliseconds. \<open>written\<close> are the messages written to the subprocess (each as the
  text \<open>fullMessage\<close> of its JSON), \<open>emitted\<close> the events emitted, \<open>killed\<close> the
  subprocess handles killed, \<open>removed\<close> the directories removed.
\<close>

record client =
  process :: "nat option"
  requestId :: int
  pendingRequests :: "(rpc_id \<times> nat) list"
  buffer :: string
  initialized :: bool
  workspaceRoot :: string
  tempDir :: "string option"
  openDocuments :: "string list"
  promises :: "outcome option list"
  timers :: "(rpc_id \<times> string \<times> nat \<times> nat) list"
  written :: "message list"
  emitted :: "(string \<times> json option) list"
  killed :: "nat list"
  removed :: "string list"
  now :: nat

definition new_client :: "string \<Rightarrow> client" where
  \<comment> \<open>\<open>new TypeScriptLSPClient(workspaceRoot)\<close>\<close>
  "new_client root =
     \<lparr>process = None, requestId = 0, pendingRequests = [], buffer = [],
      initialized = False, workspaceRoot = constructor_workspaceRoot root,
      tempDir = None, openDocuments = [], promises = [], timers = [],
      written = [], emitted = [], killed = [], removed = [], now = 0\<rparr>"

definition settle :: "nat \<Rightarrow> outcome \<Rightarrow> client \<Rightarrow> client" where
  \<comment> \<open>calling \<open>resolve\<close> or \<open>reject\<close> of promise \<open>p\<close>: only the first call settles it\<close>
  "settle p out st =
     (if p < length (promises st) \<and> promises st ! p = None
      then st\<lparr>promises := (promises st)[p := Some out]\<rparr>
      else st)"

definition handleMessage :: "message \<Rightarrow> client \<Rightarrow> client" where
  "handleMessage msg st =
     (if m_id msg \<noteq> None \<and> (m_result msg \<noteq> None \<or> m_error msg \<noteq> None) then
        (case map_of (pendingRequests st) (the (m_id msg)) of
           None \<Rightarrow> st
         | Some pending \<Rightarrow>
             (let st' = st\<lparr>pendingRequests :=
                          AList.delete (the (m_id msg)) (pendingRequests st)\<rparr>
              in case m_error msg of
                   Some (ErrObject e) \<Rightarrow> settle pending (Rejected (Error (message e))) st'
                 | _ \<Rightarrow> settle pending (Resolved (m_result msg)) st'))
      else (case m_method msg of
              None \<Rightarrow> st
            | Some method \<Rightarrow>
                if method = [] then st
                else st\<lparr>emitted := emitted st @ [(method, m_params msg)]\<rparr>))"

lemma buffer_settle: "buffer (settle p out st) = buffer st"
  by (simp add: settle_def)

lemma buffer_handleMessage: "buffer (handleMessage msg st) = buffer st"
  by (simp add: handleMessage_def buffer_settle Let_def split: option.splits rpc_error_value.splits)

lemma matchHeaderAt_length:
  "matchHeaderAt s = Some (ds, n) \<Longrightarrow> 0 < n"
  by (auto simp: matchHeaderAt_def Let_def split: if_splits)

lemma matchHeader_length:
  "matchHeader s = Some (ds, n) \<Longrightarrow> 0 < n"
  by (induction s) (auto dest: matchHeaderAt_length split: option.splits)

function processBuffer :: "(string \<Rightarrow> message option) \<Rightarrow> client \<Rightarrow> client" where
  "processBuffer parse st =
     (case matchHeader (buffer st) of
        None \<Rightarrow> st
      | Some (digits, headerLength) \<Rightarrow>
          (let contentLength = parseInt digits;
               totalLength = headerLength + contentLength
           in if length (buffer st) < totalLength then st
              else (let messageStr = slice (buffer st) headerLength totalLength;
                        st' = st\<lparr>buffer := drop totalLength (buffer st)\<rparr>
                    in processBuffer parse
                         (case parse messageStr of
                            None \<Rightarrow> st'
                          | Some msg \<Rightarrow> handleMessage msg st'))))"
  by pat_completeness auto
termination
proof (relation "measure (\<lambda>(parse, st). length (buffer st))")
  show "wf (measure (\<lambda>(parse, st). length (buffer st)))"
    by simp
next
  fix parse :: "string \<Rightarrow> message option" and st :: client
    and x2 :: "string \<times> nat" and x1 :: string and x2a :: nat
    and contentLength totalLength :: nat and messageStr :: string and st' :: client
  assume m: "matchHeader (buffer st) = Some x2" "(x1, x2a) = x2"
    and c: "contentLength = parseInt x1" "totalLength = x2a + contentLength"
    and l: "\<not> length (buffer st) < totalLength"
    and s: "st' = st\<lparr>buffer := drop totalLength (buffer st)\<rparr>"
  from m have "0 < x2a"
    using matchHeader_length [of "buffer st" x1 x2a] by simp
  with c l have "length (drop totalLength (buffer st)) < length (buffer st)"
    by simp
  with s show "((parse, case parse messageStr of None \<Rightarrow> st' | Some msg \<Rightarrow> handleMessage msg st'),
          parse, st) \<in> measure (\<lambda>(parse, st). length (buffer st))"
    by (simp add: buffer_handleMessage split: option.splits)
qed

declare processBuffer.simps [simp del]

definition onData :: "(string \<Rightarrow> message option) \<Rightarrow> string \<Rightarrow> client \<Rightarrow> client" where
  \<comment> \<open>the \<open>stdout\<close> handler; \<open>chunk\<close> is \<open>data.toString()\<close>, \<open>parse\<close> is \<open>JSON.parse\<close>
     (\<open>None\<close> where it throws)\<close>
  "onData parse chunk st = processBuffer parse (st\<lparr>buffer := buffer st @ chunk\<rparr>)"

definition header :: "nat \<Rightarrow> string" where
  \<comment> \<open>the header that \<open>fullMessage\<close> writes for a length\<close>
  "header n = ''Content-Length: '' @ decimal n @ CRLF2"

definition lfs :: "string \<Rightarrow> nat" where
  \<comment> \<open>the number of line feeds in a string\<close>
  "lfs s = length (filter (\<lambda>c. c = CHR 0x0A) s)"

definition feed :: "(string \<Rightarrow> message option) \<Rightarrow> string list \<Rightarrow> client \<Rightarrow> client" where
  \<comment> \<open>the chunks arrive one after the other\<close>
  "feed parse chunks st = foldl (\<lambda>s chunk. onData parse chunk s) st chunks"

definition deliver :: "(string \<Rightarrow> message option) \<Rightarrow> string \<Rightarrow> client \<Rightarrow> client" where
  \<comment> \<open>what the loop of \<open>processBuffer\<close> does with one extracted text: parse it and handle
     the message, or drop it\<close>
  "deliver parse messageStr st =
     (case parse messageStr of None \<Rightarrow> st | Some msg \<Rightarrow> handleMessage msg st)"




section \<open>Requests, notifications and their timeouts\<close>

definition sendMessage :: "message \<Rightarrow> client \<Rightarrow> js_error + client" where
  \<comment> \<open>a subprocess spawned with the default stdio has a \<open>stdin\<close>, so the guard is on the
     handle alone\<close>
  "sendMessage msg st =
     (case process st of
        None \<Rightarrow> Inl (Error ''TypeScript Language Server not running'')
      | Some h \<Rightarrow> Inr (st\<lparr>written := written st @ [msg]\<rparr>))"

definition notification :: "string \<Rightarrow> json \<Rightarrow> message" where
  "notification method params =
     \<lparr>m_id = None, m_method = Some method, m_params = Some params,
      m_result = None, m_error = None\<rparr>"

definition request :: "int \<Rightarrow> string \<Rightarrow> json \<Rightarrow> message" where
  "request n method params =
     \<lparr>m_id = Some (IdNum n), m_method = Some method, m_params = Some params,
      m_result = None, m_error = None\<rparr>"

definition sendNotification :: "string \<Rightarrow> json \<Rightarrow> client \<Rightarrow> js_error + client" where
  "sendNotification method params st = sendMessage (notification method params) st"

definition sendRequest :: "string \<Rightarrow> json \<Rightarrow> client \<Rightarrow> nat \<times> client" where
  \<comment> \<open>returns the promise. A throw of \<open>sendMessage\<close> inside the promise's executor rejects
     the promise; the entry stays in the map and no timeout is set.\<close>
  "sendRequest method params st =
     (let n = requestId st + 1;
          p = length (promises st);
          st1 = st\<lparr>requestId := n, promises := promises st @ [None]\<rparr>;
          st2 = st1\<lparr>pendingRequests := AList.update (IdNum n) p (pendingRequests st1)\<rparr>
      in case sendMessage (request n method params) st2 of
           Inl e \<Rightarrow> (p, settle p (Rejected e) st2)
         | Inr st3 \<Rightarrow>
             (p, st3\<lparr>timers := timers st3 @ [(IdNum n, method, p, now st3 + 10000)]\<rparr>))"

definition requestTimeout :: "rpc_id \<Rightarrow> string \<Rightarrow> nat \<Rightarrow> client \<Rightarrow> client" where
  \<comment> \<open>the callback given to \<open>setTimeout\<close> by the request \<open>i\<close> of promise \<open>p\<close>\<close>
  "requestTimeout i method p st =
     (if map_of (pendingRequests st) i \<noteq> None
      then settle p (Rejected (Error (''Request timeout: '' @ method)))
             (st\<lparr>pendingRequests := AList.delete i (pendingRequests st)\<rparr>)
      else st)"

definition fireTimer :: "nat \<Rightarrow> client \<Rightarrow> client" where
  \<comment> \<open>the \<open>k\<close>-th timeout that is set runs, once, and not before it is due\<close>
  "fireTimer k st =
     (if k < length (timers st)
      then (case timers st ! k of
              (i, method, p, d) \<Rightarrow>
                if d \<le> now st
                then requestTimeout i method p
                       (st\<lparr>timers := take k (timers st) @ drop (Suc k) (timers st)\<rparr>)
                else st)
      else st)"

definition didCloseParams :: "string \<Rightarrow> json" where
  "didCloseParams uri = JObj [(''textDocument'', JObj [(''uri'', JStr uri)])]"

definition cleanup :: "client \<Rightarrow> client" where
  "cleanup st =
     (let st1 = st\<lparr>initialized := False, pendingRequests := []\<rparr>;
          st2 = foldl (\<lambda>s uri.
                   case sendNotification ''textDocument/didClose'' (didCloseParams uri) s of
                     Inl e \<Rightarrow> s
                   | Inr s' \<Rightarrow> s') st1 (openDocuments st1);
          st3 = st2\<lparr>openDocuments := []\<rparr>;
          st4 = (case process st3 of
                   None \<Rightarrow> st3
                 | Some h \<Rightarrow> st3\<lparr>killed := killed st3 @ [h], process := None\<rparr>)
      in case tempDir st4 of
           None \<Rightarrow> st4
         | Some d \<Rightarrow> st4\<lparr>removed := removed st4 @ [d]\<rparr>)"

text \<open>
  What can happen to a client between two of its method calls: a caller sends a request
  or a notification, the subprocess's output delivers a chunk, a timeout runs, the
  subprocess exits (its \<open>exit\<close> handler is \<open>cleanup\<close>), a subprocess is started again,
  or time passes.
\<close>

datatype event =
    CallSendRequest string json
  | CallSendNotification string json
  | StdoutData string
  | TimerRuns nat
  | ProcessExit
  | ProcessStarted nat
  | Tick nat

fun step :: "(string \<Rightarrow> message option) \<Rightarrow> event \<Rightarrow> client \<Rightarrow> client" where
  "step parse (CallSendRequest method params) st = snd (sendRequest method params st)"
| "step parse (CallSendNotification method params) st =
     (case sendNotification method params st of Inl e \<Rightarrow> st | Inr st' \<Rightarrow> st')"
| "step parse (StdoutData chunk) st = onData parse chunk st"
| "step parse (TimerRuns k) st = fireTimer k st"
| "step parse ProcessExit st = cleanup st"
| "step parse (ProcessStarted h) st = st\<lparr>process := Some h\<rparr>"
| "step parse (Tick ms) st = st\<lparr>now := now st + ms\<rparr>"

fun run :: "(string \<Rightarrow> message option) \<Rightarrow> event list \<Rightarrow> client \<Rightarrow> client" where
  "run parse [] st = st"
| "run parse (e # es) st = run parse es (step parse e st)"

definition registeredIds :: "nat \<Rightarrow> client \<Rightarrow> rpc_id list" where
  \<comment> \<open>the keys under which the map \<open>pendingRequests\<close> holds the callbacks of promise \<open>p\<close>\<close>
  "registeredIds p st =
     filter (\<lambda>i. map_of (pendingRequests st) i = Some p) (map fst (pendingRequests st))"

definition writtenIds :: "client \<Rightarrow> client \<Rightarrow> rpc_id list" where
  \<comment> \<open>the ids of the messages written to the subprocess between two states\<close>
  "writtenIds st st' = List.map_filter m_id (drop (length (written st)) (written st'))"

fun requestIds :: "(string \<Rightarrow> message option) \<Rightarrow> event list \<Rightarrow> client \<Rightarrow> rpc_id list" where
  \<comment> \<open>the ids that the \<open>sendRequest\<close> calls of a run give to their requests, in order:
     for each call, the key under which the map holds the callbacks of its promise\<close>
  "requestIds parse [] st = []"
| "requestIds parse (e # es) st =
     (case e of
        CallSendRequest method params \<Rightarrow>
          (case sendRequest method params st of (p, st') \<Rightarrow> registeredIds p st')
      | _ \<Rightarrow> [])
     @ requestIds parse es (step parse e st)"

fun sentIds :: "(string \<Rightarrow> message option) \<Rightarrow> event list \<Rightarrow> client \<Rightarrow> rpc_id list" where
  \<comment> \<open>the ids of the messages that the \<open>sendRequest\<close> calls of a run write to the
     subprocess, in order\<close>
  "sentIds parse [] st = []"
| "sentIds parse (e # es) st =
     (case e of
        CallSendRequest method params \<Rightarrow> writtenIds st (snd (sendRequest method params st))
      | _ \<Rightarrow> [])
     @ sentIds parse es (step parse e st)"


section \<open>Documents\<close>

definition didOpenParams :: "string \<Rightarrow> string \<Rightarrow> string \<Rightarrow> json" where
  "didOpenParams uri lang text =
     JObj [(''textDocument'',
            JObj [(''uri'', JStr uri), (''languageId'', JStr lang),
                  (''version'', JNum 1), (''text'', JStr text)])]"

definition fileUri :: "string \<Rightarrow> string" where
  \<comment> \<open>the template \<open>file://${filePath}\<close>\<close>
  "fileUri filePath = ''file://'' @ filePath"

definition set_add :: "string \<Rightarrow> string list \<Rightarrow> string list" where
  \<comment> \<open>\<open>Set.add\<close>, the set kept in insertion order\<close>
  "set_add x xs = (if x \<in> set xs then xs else xs @ [x])"

definition openDocument ::
  "(string \<Rightarrow> js_error + string) \<Rightarrow> string \<Rightarrow> client \<Rightarrow> js_error + client" where
  \<comment> \<open>\<open>readFile\<close> is the file system: the content of a path, or the error of reading it\<close>
  "openDocument readFile filePath st =
     (if \<not> initialized st then Inl (Error ''TypeScript Language Server not initialized'')
      else (let uri = fileUri filePath
            in if uri \<in> set (openDocuments st) then Inr st
               else (case (case readFile filePath of
                             Inl e \<Rightarrow> Inl e
                           | Inr content \<Rightarrow>
                               (case sendNotification ''textDocument/didOpen''
                                       (didOpenParams uri (languageId filePath) content) st of
                                  Inl e \<Rightarrow> Inl e
                                | Inr st' \<Rightarrow>
                                    Inr (st'\<lparr>openDocuments := set_add uri (openDocuments st')\<rparr>))) of
                       Inl (Error msg) \<Rightarrow>
                         Inl (Error (''Failed to open document '' @ filePath @ '': '' @ msg))
                     | Inr st' \<Rightarrow> Inr st')))"

definition ensureDocumentOpen ::
  "(string \<Rightarrow> js_error + string) \<Rightarrow> string \<Rightarrow> client \<Rightarrow> js_error + client" where
  "ensureDocumentOpen readFile filePath st =
     (let uri = fileUri filePath
      in if uri \<notin> set (openDocuments st) then
           (case openDocument readFile filePath st of
              Inr st' \<Rightarrow> Inr st'
            | Inl (Error msg) \<Rightarrow>
                if includes_str msg ''ENOENT'' then
                  (case sendNotification ''textDocument/didOpen''
                          (didOpenParams uri ''typescript'' (''// File not found'' @ [CHR 0x0A])) st of
                     Inl e \<Rightarrow> Inl e
                   | Inr st' \<Rightarrow> Inr (st'\<lparr>openDocuments := set_add uri (openDocuments st')\<rparr>))
                else Inl (Error msg))
         else Inr st)"

fun property :: "string \<Rightarrow> json \<Rightarrow> json option" where
  \<comment> \<open>the property \<open>k\<close> of a JSON object\<close>
  "property k (JObj members) = map_of members k"
| "property k v = None"

definition isDidOpen :: "string \<Rightarrow> message \<Rightarrow> bool" where
  \<comment> \<open>\<open>msg\<close> is an open notification for \<open>uri\<close>\<close>
  "isDidOpen uri msg =
     (m_id msg = None \<and> m_method msg = Some ''textDocument/didOpen'' \<and>
      (case m_params msg of
         None \<Rightarrow> False
       | Some ps \<Rightarrow>
           (case property ''textDocument'' ps of
              None \<Rightarrow> False
            | Some doc \<Rightarrow> property ''uri'' doc = Some (JStr uri))))"

definition openNotifications :: "string \<Rightarrow> client \<Rightarrow> nat" where
  \<comment> \<open>how many open notifications for \<open>uri\<close> the client has written\<close>
  "openNotifications uri st = length (filter (isDidOpen uri) (written st))"

definition opened :: "string \<Rightarrow> client \<Rightarrow> client \<Rightarrow> bool" where
  \<comment> \<open>\<open>st'\<close> is \<open>st\<close> after one open notification for \<open>uri\<close> and its entry in the set\<close>
  "opened uri st st' =
     (\<exists>lang body.
        st' = st\<lparr>written := written st
                        @ [notification ''textDocument/didOpen'' (didOpenParams uri lang body)],
                   openDocuments := openDocuments st @ [uri]\<rparr>)"

section \<open>The handshake and the shutdown of a client\<close>

definition noDynamicRegistration :: json where
  "noDynamicRegistration = JObj [(''dynamicRegistration'', JBool False)]"

definition linkSupport :: json where
  "linkSupport = JObj [(''dynamicRegistration'', JBool False), (''linkSupport'', JBool True)]"

definition capabilities :: json where
  "capabilities =
     JObj [
       (''workspace'', JObj [
          (''symbol'', noDynamicRegistration),
          (''didChangeConfiguration'', noDynamicRegistration),
          (''executeCommand'', noDynamicRegistration)]),
       (''textDocument'', JObj [
          (''synchronization'', JObj [
             (''dynamicRegistration'', JBool False), (''willSave'', JBool False),
             (''willSaveWaitUntil'', JBool False), (''didSave'', JBool False)]),
          (''definition'', linkSupport),
          (''typeDefinition'', linkSupport),
          (''implementation'', linkSupport),
          (''references'', noDynamicRegistration),
          (''hover'', JObj [
             (''dynamicRegistration'', JBool False),
             (''contentFormat'', JArr [JStr ''markdown'', JStr ''plaintext''])]),
          (''documentSymbol'', JObj [
             (''dynamicRegistration'', JBool False),
             (''hierarchicalDocumentSymbolSupport'', JBool True)]),
          (''completion'', JObj [
             (''dynamicRegistration'', JBool False),
             (''completionItem'', JObj [(''snippetSupport'', JBool True)])]),
          (''signatureHelp'', noDynamicRegistration),
          (''codeAction'', JObj [
             (''dynamicRegistration'', JBool False),
             (''codeActionLiteralSupport'', JObj [
                (''codeActionKind'', JObj [
                   (''valueSet'', JArr [
                      JStr ''source.organizeImports.ts'', JStr ''source.removeUnused.ts'',
                      JStr ''source.addMissingImports.ts'', JStr ''source.fixAll.ts''])])])]),
          (''publishDiagnostics'', JObj [(''relatedInformation'', JBool True)]),
          (''callHierarchy'', noDynamicRegistration),
          (''typeHierarchy'', noDynamicRegistration),
          (''inlayHint'', noDynamicRegistration)])]"

definition initializationOptions :: json where
  "initializationOptions =
     JObj [
       (''preferences'', JObj [
          (''includeInlayParameterNameHints'', JStr ''all''),
          (''includeInlayParameterNameHintsWhenArgumentMatchesName'', JBool False),
          (''includeInlayFunctionParameterTypeHints'', JBool True),
          (''includeInlayVariableTypeHints'', JBool True),
          (''includeInlayVariableTypeHintsWhenTypeMatchesName'', JBool False),
          (''includeInlayPropertyDeclarationTypeHints'', JBool True),
          (''includeInlayFunctionLikeReturnTypeHints'', JBool True),
          (''includeInlayEnumMemberValueHints'', JBool True)]),
       (''tsserver'', JObj [(''logVerbosity'', JStr ''off'')])]"

definition initializeParams :: "int \<Rightarrow> string \<Rightarrow> json" where
  \<comment> \<open>the parameters of the \<open>initialize\<close> request, for the process id of this program and
     the client's workspace root\<close>
  "initializeParams pid root =
     JObj [
       (''processId'', JNum pid),
       (''clientInfo'', JObj [(''name'', JStr ''typescript-mcp''), (''version'', JStr ''1.0.0'')]),
       (''locale'', JStr ''en''),
       (''rootPath'', JStr root),
       (''rootUri'', JStr (''file://'' @ root)),
       (''capabilities'', capabilities),
       (''initializationOptions'', initializationOptions),
       (''workspaceFolders'',
          JArr [JObj [(''uri'', JStr (''file://'' @ root)), (''name'', JStr ''workspace'')]])]"

definition response :: "int \<Rightarrow> json \<Rightarrow> message" where
  \<comment> \<open>the response of the subprocess to request \<open>n\<close>, with a result\<close>
  "response n r =
     \<lparr>m_id = Some (IdNum n), m_method = None, m_params = None,
      m_result = Some r, m_error = None\<rparr>"

definition error_response :: "int \<Rightarrow> rpc_error \<Rightarrow> message" where
  \<comment> \<open>the response of the subprocess to request \<open>n\<close>, with an error\<close>
  "error_response n e =
     \<lparr>m_id = Some (IdNum n), m_method = None, m_params = None,
      m_result = None, m_error = Some (ErrObject e)\<rparr>"

text \<open>
  What the world does during a call that waits. \<open>spawn_result\<close>: the subprocess has no
  output streams, gives no \<open>spawn\<close> event within five seconds, gives an \<open>error\<close> event,
  or starts. \<open>reply\<close>: the subprocess answers the awaited request with a result or with
  an error, stays silent until the timeouts run, or exits (its \<open>exit\<close> handler then
  runs \<open>cleanup\<close>).
\<close>

datatype spawn_result = NoStreams | StartupTimeout | SpawnError string | Spawned

datatype reply = Result json | Failure rpc_error | Silence | Exit

record init_env =
  env_tempDir :: string
  env_mkdir :: "string option"
  env_handle :: nat
  env_pid :: int
  env_spawn :: spawn_result
  env_reply :: reply

definition initialize :: "init_env \<Rightarrow> client \<Rightarrow> js_error option \<times> client" where
  \<comment> \<open>the error thrown, if any, and the client as the call leaves it. \<open>env_tempDir\<close> is the
     joined path of the temporary directory, \<open>env_mkdir\<close> the error of creating it.\<close>
  "initialize env st =
     (if initialized st then (None, st)
      else
        (let st1 = st\<lparr>tempDir := Some (env_tempDir env)\<rparr>
         in case env_mkdir env of
              Some msg \<Rightarrow> (Some (Error msg), st1)
            | None \<Rightarrow>
                (let st2 = st1\<lparr>process := Some (env_handle env)\<rparr>
                 in case env_spawn env of
                      NoStreams \<Rightarrow>
                        (Some (Error ''Failed to start TypeScript Language Server''), st2)
                    | StartupTimeout \<Rightarrow>
                        (Some (Error ''TypeScript Language Server startup timeout''), st2)
                    | SpawnError msg \<Rightarrow>
                        (Some (Error (''Failed to start TypeScript Language Server: '' @ msg)),
                         st2)
                    | Spawned \<Rightarrow>
                        (case sendRequest ''initialize''
                                (initializeParams (env_pid env) (workspaceRoot st2)) st2 of
                           (p, st3) \<Rightarrow>
                             (case env_reply env of
                                Result r \<Rightarrow>
                                  (let st4 = handleMessage (response (requestId st3) r) st3
                                   in case sendNotification ''initialized'' (JObj []) st4 of
                                        Inl e \<Rightarrow> (Some e, st4)
                                      | Inr st5 \<Rightarrow> (None, st5\<lparr>initialized := True\<rparr>))
                              | Failure e \<Rightarrow>
                                  (Some (Error (message e)),
                                   handleMessage (error_response (requestId st3) e) st3)
                              | Silence \<Rightarrow>
                                  (Some (Error ''LSP initialize request timeout''), st3)
                              | Exit \<Rightarrow>
                                  (Some (Error ''LSP initialize request timeout''),
                                   cleanup st3))))))"

definition shutdown :: "reply \<Rightarrow> client \<Rightarrow> client option" where
  \<comment> \<open>\<open>None\<close>: the call never returns. When the subprocess exits before it answers the
     \<open>shutdown\<close> request, the \<open>exit\<close> handler's \<open>cleanup\<close> clears the map and the awaited
     promise is never settled.\<close>
  "shutdown rep st =
     (if initialized st then
        (case sendRequest ''shutdown'' JNull st of
           (p, st1) \<Rightarrow>
             (case promises st1 ! p of
                Some out \<Rightarrow> Some (cleanup st1)
              | None \<Rightarrow>
                  (case rep of
                     Result r \<Rightarrow>
                       (let st2 = handleMessage (response (requestId st1) r) st1
                        in Some (cleanup (case sendNotification ''exit'' JNull st2 of
                                            Inl e \<Rightarrow> st2
                                          | Inr st3 \<Rightarrow> st3)))
                   | Failure e \<Rightarrow>
                       Some (cleanup (handleMessage (error_response (requestId st1) e) st1))
                   | Silence \<Rightarrow>
                       Some (cleanup (fireTimer (length (timers st1) - 1)
                                        (st1\<lparr>now := now st1 + 10000\<rparr>)))
                   | Exit \<Rightarrow> None)))
      else Some (cleanup st))"

section \<open>The workspace manager\<close>

text \<open>
  The clients are objects: the manager's map holds references, indices into \<open>heap\<close>.
  A client whose initialization failed is referred to by nothing and is left out.
\<close>

record manager =
  workspaces :: "(string \<times> nat) list"
  heap :: "client list"

definition new_manager :: manager where
  "new_manager = \<lparr>workspaces = [], heap = []\<rparr>"

definition getOrCreateWorkspace ::
  "init_env \<Rightarrow> string \<Rightarrow> manager \<Rightarrow> (js_error + nat) \<times> manager" where
  "getOrCreateWorkspace env path mgr =
     (case map_of (workspaces mgr) path of
        Some existing \<Rightarrow> (Inr existing, mgr)
      | None \<Rightarrow>
          (case initialize env (new_client path) of
             (Some e, c) \<Rightarrow> (Inl e, mgr)
           | (None, c) \<Rightarrow>
               (Inr (length (heap mgr)),
                mgr\<lparr>heap := heap mgr @ [c],
                    workspaces := AList.update path (length (heap mgr)) (workspaces mgr)\<rparr>)))"

definition closeWorkspace :: "reply \<Rightarrow> string \<Rightarrow> manager \<Rightarrow> manager option" where
  "closeWorkspace rep path mgr =
     (case map_of (workspaces mgr) path of
        None \<Rightarrow> Some mgr
      | Some c \<Rightarrow>
          (case shutdown rep (heap mgr ! c) of
             None \<Rightarrow> None
           | Some c' \<Rightarrow>
               Some (mgr\<lparr>heap := (heap mgr)[c := c'],
                         workspaces := AList.delete path (workspaces mgr)\<rparr>)))"

fun shutdownAll :: "(nat \<Rightarrow> reply) \<Rightarrow> nat list \<Rightarrow> client list \<Rightarrow> client list option" where
  \<comment> \<open>\<open>Promise.all\<close> of the clients' \<open>shutdown\<close>; \<open>rep c\<close> is what the subprocess of client
     \<open>c\<close> does. The clients are distinct objects with a subprocess each, so the order in
     which their shutdowns proceed does not matter.\<close>
  "shutdownAll rep [] h = Some h"
| "shutdownAll rep (c # cs) h =
     (case shutdown (rep c) (h ! c) of
        None \<Rightarrow> None
      | Some c' \<Rightarrow> shutdownAll rep cs (h[c := c']))"

definition closeAll :: "(nat \<Rightarrow> reply) \<Rightarrow> manager \<Rightarrow> manager option" where
  "closeAll rep mgr =
     (case shutdownAll rep (map snd (workspaces mgr)) (heap mgr) of
        None \<Rightarrow> None
      | Some h \<Rightarrow> Some (mgr\<lparr>heap := h, workspaces := []\<rparr>))"

definition wf_manager :: "manager \<Rightarrow> bool" where
  \<comment> \<open>the map's keys are unique, and so are its clients, which all exist\<close>
  "wf_manager mgr =
     (distinct (map fst (workspaces mgr)) \<and> distinct (map snd (workspaces mgr))
      \<and> (\<forall>c \<in> set (map snd (workspaces mgr)). c < length (heap mgr)))"

definition closed :: "client \<Rightarrow> bool" where
  \<comment> \<open>the state \<open>Closed\<close> of a client\<close>
  "closed c =
     (\<not> initialized c \<and> pendingRequests c = [] \<and> openDocuments c = [] \<and> process c = None)"

section \<open>Well-formed clients and the promise of a request\<close>

definition wf_client :: "client \<Rightarrow> bool" where
  \<comment> \<open>every continuation in the map and every timeout belongs to a promise that exists
     and to a request id that \<open>sendRequest\<close> has given\<close>
  "wf_client st =
     ((\<forall>i q. map_of (pendingRequests st) i = Some q \<longrightarrow>
          q < length (promises st) \<and> (\<exists>k. i = IdNum k \<and> k \<le> requestId st))
      \<and> (\<forall>(i, m, q, d) \<in> set (timers st).
          q < length (promises st) \<and> (\<exists>k. i = IdNum k \<and> k \<le> requestId st)))"

definition tracks :: "int \<Rightarrow> string \<Rightarrow> nat \<Rightarrow> client \<Rightarrow> bool" where
  \<comment> \<open>request \<open>n\<close> of method \<open>m\<close> was given promise \<open>p\<close>: only the map entry and the
     timeout of \<open>n\<close> refer to \<open>p\<close>, and while \<open>n\<close> is in the map \<open>p\<close> is unsettled and
     its timeout is set\<close>
  "tracks n m p st =
     (wf_client st \<and> n \<le> requestId st \<and> p < length (promises st)
      \<and> (\<forall>i q. map_of (pendingRequests st) i = Some q \<longrightarrow> ((i = IdNum n) = (q = p)))
      \<and> (\<forall>(i, m', q, d) \<in> set (timers st). (i = IdNum n) = (q = p))
      \<and> (map_of (pendingRequests st) (IdNum n) \<noteq> None \<longrightarrow>
            promises st ! p = None \<and> (\<exists>d. (IdNum n, m, p, d) \<in> set (timers st))))"

definition complete :: "rpc_id \<Rightarrow> nat \<Rightarrow> outcome \<Rightarrow> client \<Rightarrow> client" where
  \<comment> \<open>what \<open>handleMessage\<close> and the timeout do for a request in the map: delete the entry
     of \<open>i\<close> and settle promise \<open>q\<close>\<close>
  "complete i q out st =
     settle q out (st\<lparr>pendingRequests := AList.delete i (pendingRequests st)\<rparr>)"

definition gone :: "int \<Rightarrow> nat \<Rightarrow> outcome option \<Rightarrow> client \<Rightarrow> bool" where
  \<comment> \<open>request \<open>n\<close> is not in the map and its promise \<open>p\<close> holds \<open>v\<close>\<close>
  "gone n p v st = (map_of (pendingRequests st) (IdNum n) = None \<and> promises st ! p = v)"


definition late_response :: message where
  \<comment> \<open>a response for request 2\<close>
  "late_response =
     \<lparr>m_id = Some (IdNum 2), m_method = None, m_params = None,
      m_result = Some JNull, m_error = None\<rparr>"

section \<open>Example states\<close>

definition server_ok :: init_env where
  \<comment> \<open>the subprocess starts as handle 7 and answers the \<open>initialize\<close> request\<close>
  "server_ok =
     \<lparr>env_tempDir = ''/tmp/typescript-lsp-0'', env_mkdir = None, env_handle = 7,
      env_pid = 100, env_spawn = Spawned, env_reply = Result (JObj [])\<rparr>"

definition server_missing :: init_env where
  \<comment> \<open>the language server is not installed\<close>
  "server_missing =
     \<lparr>env_tempDir = ''/tmp/typescript-lsp-1'', env_mkdir = None, env_handle = 8,
      env_pid = 100, env_spawn = SpawnError ''spawn typescript-language-server ENOENT'',
      env_reply = Silence\<rparr>"

definition payload_e_acute :: string where
  \<comment> \<open>the JSON text of a notification whose method is the one character U+00E9\<close>
  \<open>payload_e_acute = ''{"jsonrpc":"2.0","method":"'' @ [CHR 0xE9] @ ''"}''\<close>

definition e_acute :: message where
  \<comment> \<open>the notification that \<open>payload_e_acute\<close> is the JSON text of\<close>
  "e_acute = \<lparr>m_id = None, m_method = Some [CHR 0xE9], m_params = None,
              m_result = None, m_error = None\<rparr>"


definition running_client :: client where
  \<comment> \<open>a client as \<open>initialize\<close> leaves it: subprocess 7 running, nothing pending\<close>
  "running_client =
     (new_client ''/w#typescript-lsp'')
       \<lparr>process := Some 7, requestId := 1, initialized := True,
        tempDir := Some ''/tmp/typescript-lsp-0'', promises := [Some (Resolved (Some JNull))]\<rparr>"

definition one_file :: "string \<Rightarrow> js_error + string" where
  \<comment> \<open>a file system with the single file \<open>/w/a.ts\<close>\<close>
  "one_file path =
     (if path = ''/w/a.ts'' then Inr ''let a = 1''
      else Inl (Error (''ENOENT: no such file or directory, open '' @ path)))"

definition two_workspaces :: manager where
  \<comment> \<open>a manager with two running clients\<close>
  "two_workspaces =
     \<lparr>workspaces = [(''/a#typescript-lsp'', 0), (''/b#typescript-lsp'', 1)],
      heap = [running_client, running_client\<lparr>process := Some 8\<rparr>]\<rparr>"

section \<open>Properties of the constructor and of the language id\<close>





text \<open>
  C3 (the code departs from the specification at \<open>.jsx\<close>). The specification gives a \<open>.jsx\<close> file the
  language id \<open>javascriptreact\<close>. In \<open>openDocument\<close> the first test of the chain already
  accepts \<open>.jsx\<close> together with \<open>.js\<close>, so the later \<open>.jsx\<close> branch is never reached:
  a \<open>.jsx\<close> path gets \<open>javascript\<close>, and no path at all gets \<open>javascriptreact\<close>.
\<close>

theorem C3_jsx_gets_javascript:
  "languageId ''/src/App.jsx'' = ''javascript'' \<and> (\<forall>p. languageId p \<noteq> ''javascriptreact'')"
  by (simp add: languageId_def endsWith_def)



section \<open>Opening a document twice\<close>

lemma sendNotification_Inr:
  "sendNotification method params st = Inr st' \<Longrightarrow>
   st' = st\<lparr>written := written st @ [notification method params]\<rparr>"
  by (auto simp: sendNotification_def sendMessage_def split: option.splits)

lemma isDidOpen_notification:
  "isDidOpen uri (notification ''textDocument/didOpen'' (didOpenParams uri' lang body))
   = (uri' = uri)"
  by (simp add: isDidOpen_def notification_def didOpenParams_def)

lemma openedI:
  "st' = st\<lparr>written := written st
                  @ [notification ''textDocument/didOpen'' (didOpenParams uri lang body)],
             openDocuments := openDocuments st @ [uri]\<rparr> \<Longrightarrow> opened uri st st'"
  unfolding opened_def by blast

lemma openDocument_Inr:
  assumes "openDocument readFile filePath st = Inr st'"
    and "fileUri filePath \<notin> set (openDocuments st)"
  shows "opened (fileUri filePath) st st'"
  using assms
  by (auto simp: openDocument_def Let_def set_add_def
           split: if_splits sum.splits js_error.splits
           dest!: sendNotification_Inr intro!: openedI)

lemma ensureDocumentOpen_Inr:
  assumes "ensureDocumentOpen readFile filePath st = Inr st'"
    and "fileUri filePath \<notin> set (openDocuments st)"
  shows "opened (fileUri filePath) st st'"
proof (cases "openDocument readFile filePath st")
  case (Inr s)
  with assms have "st' = s" by (simp add: ensureDocumentOpen_def)
  with Inr assms(2) show ?thesis by (simp add: openDocument_Inr)
next
  case (Inl e)
  then show ?thesis
    using assms
    by (auto simp: ensureDocumentOpen_def Let_def set_add_def
             split: if_splits sum.splits js_error.splits
             dest!: sendNotification_Inr intro!: openedI)
qed

text \<open>
  C9. When a call of \<open>ensureDocumentOpen\<close> on a path has returned, a second call on the
  same path (whatever the file system has become) returns too, writes nothing and leaves
  the client as it was, so the set of open documents is the one after the first call.
  When the document was not open before the first call, that call wrote exactly one
  message, an open notification for the path: the two calls together emit exactly one.
\<close>

theorem C9_ensureDocumentOpen_idempotent:
  assumes "ensureDocumentOpen readFile filePath st = Inr st1"
  shows "ensureDocumentOpen readFile' filePath st1 = Inr st1
    \<and> (fileUri filePath \<notin> set (openDocuments st) \<longrightarrow>
         openNotifications (fileUri filePath) st1 = openNotifications (fileUri filePath) st + 1
         \<and> length (written st1) = length (written st) + 1)"
proof (cases "fileUri filePath \<in> set (openDocuments st)")
  case True
  with assms have "st1 = st" by (simp add: ensureDocumentOpen_def)
  with True show ?thesis by (simp add: ensureDocumentOpen_def)
next
  case False
  from ensureDocumentOpen_Inr [OF assms False] obtain lang body where
    "st1 = st\<lparr>written := written st
         @ [notification ''textDocument/didOpen'' (didOpenParams (fileUri filePath) lang body)],
       openDocuments := openDocuments st @ [fileUri filePath]\<rparr>"
    unfolding opened_def by blast
  then show ?thesis
    by (simp add: ensureDocumentOpen_def openNotifications_def isDidOpen_notification Let_def)
qed

theorem C9_ensureDocumentOpen_idempotent_witness:
  "\<exists>st1. ensureDocumentOpen one_file ''/w/a.ts'' running_client = Inr st1
     \<and> openDocuments st1 = [''file:///w/a.ts'']
     \<and> ensureDocumentOpen one_file ''/w/a.ts'' st1 = Inr st1
     \<and> openNotifications ''file:///w/a.ts'' st1 = 1
     \<and> length (written st1) = 1"
proof -
  let ?st1 = "running_client
    \<lparr>written := [notification ''textDocument/didOpen''
                   (didOpenParams ''file:///w/a.ts'' ''typescript'' ''let a = 1'')],
     openDocuments := [''file:///w/a.ts'']\<rparr>"
  have first: "ensureDocumentOpen one_file ''/w/a.ts'' running_client = Inr ?st1"
    by (simp add: ensureDocumentOpen_def openDocument_def one_file_def running_client_def
        new_client_def fileUri_def sendNotification_def sendMessage_def set_add_def
        languageId_def endsWith_def Let_def)
  have fresh: "fileUri ''/w/a.ts'' \<notin> set (openDocuments running_client)"
    by (simp add: running_client_def new_client_def)
  have zero: "openNotifications (fileUri ''/w/a.ts'') running_client = 0"
    by (simp add: openNotifications_def running_client_def new_client_def)
  have uri: "fileUri ''/w/a.ts'' = ''file:///w/a.ts''"
    by (simp add: fileUri_def)
  from C9_ensureDocumentOpen_idempotent [OF first, of one_file] fresh zero first
  show ?thesis
    by (simp add: uri running_client_def new_client_def)
qed

section \<open>Request ids\<close>

lemma processBuffer_unfold_None:
  "matchHeader (buffer st) = None \<Longrightarrow> processBuffer parse st = st"
  by (subst processBuffer.simps) simp

lemma processBuffer_unfold_short:
  "matchHeader (buffer st) = Some (digits, headerLength) \<Longrightarrow>
   length (buffer st) < headerLength + parseInt digits \<Longrightarrow> processBuffer parse st = st"
  by (subst processBuffer.simps) simp

lemma processBuffer_unfold_message:
  "matchHeader (buffer st) = Some (digits, headerLength) \<Longrightarrow>
   \<not> length (buffer st) < headerLength + parseInt digits \<Longrightarrow>
   processBuffer parse st =
     processBuffer parse
       (case parse (slice (buffer st) headerLength (headerLength + parseInt digits)) of
          None \<Rightarrow> st\<lparr>buffer := drop (headerLength + parseInt digits) (buffer st)\<rparr>
        | Some msg \<Rightarrow> handleMessage msg (st\<lparr>buffer := drop (headerLength + parseInt digits) (buffer st)\<rparr>))"
  by (subst processBuffer.simps) (simp add: Let_def)


lemma processBuffer_preserves:
  assumes h: "\<And>msg s. P s \<Longrightarrow> P (handleMessage msg s)"
    and b: "\<And>b s. P s \<Longrightarrow> P (s\<lparr>buffer := b\<rparr>)"
  shows "P st \<Longrightarrow> P (processBuffer parse st)"
proof (induction parse st rule: processBuffer.induct)
  case (1 parse st)
  show ?case
  proof (cases "matchHeader (buffer st)")
    case None
    with 1(2) show ?thesis by (simp add: processBuffer_unfold_None)
  next
    case (Some r)
    obtain digits headerLength where r: "r = (digits, headerLength)" by (cases r)
    let ?total = "headerLength + parseInt digits"
    show ?thesis
    proof (cases "length (buffer st) < ?total")
      case True
      with Some r 1(2) show ?thesis by (simp add: processBuffer_unfold_short)
    next
      case False
      let ?st' = "st\<lparr>buffer := drop ?total (buffer st)\<rparr>"
      let ?next = "case parse (slice (buffer st) headerLength ?total) of
                     None \<Rightarrow> ?st' | Some msg \<Rightarrow> handleMessage msg ?st'"
      have "P ?next" using 1(2) by (auto split: option.splits intro: h b)
      moreover have "P ?next \<Longrightarrow> P (processBuffer parse ?next)"
        using Some r False by (intro 1(1) [OF _ _ refl refl _ refl refl]) auto
      ultimately have "P (processBuffer parse ?next)" by blast
      with Some r False show ?thesis by (simp add: processBuffer_unfold_message)
    qed
  qed
qed

lemma requestId_settle [simp]: "requestId (settle p out st) = requestId st"
  by (simp add: settle_def)

lemma requestId_handleMessage [simp]: "requestId (handleMessage msg st) = requestId st"
  by (simp add: handleMessage_def Let_def split: option.splits rpc_error_value.splits)

lemma requestId_processBuffer: "requestId (processBuffer parse st) = requestId st"
  by (rule processBuffer_preserves [where P = "\<lambda>s. requestId s = requestId st"]) simp_all

lemma requestId_sendRequest: "requestId (snd (sendRequest method params st)) = requestId st + 1"
  by (simp add: sendRequest_def sendMessage_def Let_def split: option.splits)

lemma requestId_fireTimer: "requestId (fireTimer k st) = requestId st"
  by (simp add: fireTimer_def requestTimeout_def split: prod.splits)

lemma requestId_close_fold:
  "requestId (foldl (\<lambda>s uri. case sendNotification m (f uri) s of Inl e \<Rightarrow> s | Inr s' \<Rightarrow> s') st uris) = requestId st"
  by (induction uris arbitrary: st) (auto simp: sendNotification_def sendMessage_def split: option.splits)

lemma requestId_cleanup: "requestId (cleanup st) = requestId st"
  by (simp add: cleanup_def Let_def requestId_close_fold split: option.splits)

lemma requestId_step:
  "requestId (step parse e st) = (case e of CallSendRequest m p \<Rightarrow> requestId st + 1 | _ \<Rightarrow> requestId st)"
  by (cases e) (auto simp: requestId_sendRequest requestId_fireTimer requestId_cleanup onData_def
      requestId_processBuffer sendNotification_def sendMessage_def split: option.splits sum.splits)

lemma requestId_step_mono: "requestId st \<le> requestId (step parse e st)"
  by (simp add: requestId_step split: event.splits)

section \<open>The request registry\<close>

lemma settle_fields [simp]:
  "pendingRequests (settle q out st) = pendingRequests st"
  "timers (settle q out st) = timers st"
  "length (promises (settle q out st)) = length (promises st)"
  "process (settle q out st) = process st"
  by (simp_all add: settle_def)

lemma settle_other: "q \<noteq> p \<Longrightarrow> promises (settle q out st) ! p = promises st ! p"
  by (simp add: settle_def)


lemma settle_settled:
  "promises st ! p \<noteq> None \<Longrightarrow> settle p out st = st"
  by (auto simp: settle_def)

lemma handleMessage_cases:
  "handleMessage msg st = st
   \<or> (\<exists>m ps. handleMessage msg st = st\<lparr>emitted := emitted st @ [(m, ps)]\<rparr>)
   \<or> (\<exists>i q out. m_id msg = Some i \<and> (m_result msg \<noteq> None \<or> m_error msg \<noteq> None)
         \<and> map_of (pendingRequests st) i = Some q \<and> handleMessage msg st = complete i q out st)"
  by (auto simp: handleMessage_def complete_def Let_def split: option.splits rpc_error_value.splits)

lemma requestTimeout_cases:
  "requestTimeout i m q st =
     (if map_of (pendingRequests st) i \<noteq> None
      then complete i q (Rejected (Error (''Request timeout: '' @ m))) st else st)"
  by (simp add: requestTimeout_def complete_def)

lemma wf_clientI:
  assumes "\<And>i q. map_of (pendingRequests st) i = Some q \<Longrightarrow>
             q < length (promises st) \<and> (\<exists>k. i = IdNum k \<and> k \<le> requestId st)"
    and "\<And>i m q d. (i, m, q, d) \<in> set (timers st) \<Longrightarrow>
             q < length (promises st) \<and> (\<exists>k. i = IdNum k \<and> k \<le> requestId st)"
  shows "wf_client st"
  using assms unfolding wf_client_def by blast

lemma wf_pendingD:
  "wf_client st \<Longrightarrow> map_of (pendingRequests st) i = Some q \<Longrightarrow>
   q < length (promises st) \<and> (\<exists>k. i = IdNum k \<and> k \<le> requestId st)"
  unfolding wf_client_def by blast

lemma wf_timerD:
  "wf_client st \<Longrightarrow> (i, m, q, d) \<in> set (timers st) \<Longrightarrow>
   q < length (promises st) \<and> (\<exists>k. i = IdNum k \<and> k \<le> requestId st)"
  unfolding wf_client_def by blast

lemma tracksI:
  assumes "wf_client st" and "n \<le> requestId st" and "p < length (promises st)"
    and "\<And>i q. map_of (pendingRequests st) i = Some q \<Longrightarrow> (i = IdNum n) = (q = p)"
    and "\<And>i m' q d. (i, m', q, d) \<in> set (timers st) \<Longrightarrow> (i = IdNum n) = (q = p)"
    and "map_of (pendingRequests st) (IdNum n) \<noteq> None \<Longrightarrow>
           promises st ! p = None \<and> (\<exists>d. (IdNum n, m, p, d) \<in> set (timers st))"
  shows "tracks n m p st"
  using assms unfolding tracks_def by blast

lemma tracks_wf: "tracks n m p st \<Longrightarrow> wf_client st"
  and tracks_le: "tracks n m p st \<Longrightarrow> n \<le> requestId st"
  and tracks_lt: "tracks n m p st \<Longrightarrow> p < length (promises st)"
  and tracks_pending:
    "tracks n m p st \<Longrightarrow> map_of (pendingRequests st) i = Some q \<Longrightarrow> (i = IdNum n) = (q = p)"
  and tracks_timer:
    "tracks n m p st \<Longrightarrow> (i, m', q, d) \<in> set (timers st) \<Longrightarrow> (i = IdNum n) = (q = p)"
  and tracks_live:
    "tracks n m p st \<Longrightarrow> map_of (pendingRequests st) (IdNum n) \<noteq> None \<Longrightarrow>
       promises st ! p = None \<and> (\<exists>d. (IdNum n, m, p, d) \<in> set (timers st))"
  unfolding tracks_def by blast+

lemma complete_fields [simp]:
  "map_of (pendingRequests (complete i q out st)) = (map_of (pendingRequests st))(i := None)"
  "timers (complete i q out st) = timers st"
  "length (promises (complete i q out st)) = length (promises st)"
  "requestId (complete i q out st) = requestId st"
  by (simp_all add: complete_def delete_conv' settle_def)

lemma complete_other: "q \<noteq> p \<Longrightarrow> promises (complete i q out st) ! p = promises st ! p"
  by (simp add: complete_def settle_def)

lemma wf_complete: "wf_client st \<Longrightarrow> wf_client (complete i q out st)"
  by (rule wf_clientI) (auto dest: wf_pendingD wf_timerD split: if_splits)

lemma tracks_complete:
  assumes t: "tracks n m p st" and iq: "(i = IdNum n) = (q = p)"
  shows "tracks n m p (complete i q out st)"
proof (rule tracksI)
  show "wf_client (complete i q out st)" using t by (simp add: wf_complete tracks_wf)
  show "n \<le> requestId (complete i q out st)" using t by (simp add: tracks_le)
  show "p < length (promises (complete i q out st))" using t by (simp add: tracks_lt)
  show "(j = IdNum n) = (r = p)"
    if "map_of (pendingRequests (complete i q out st)) j = Some r" for j r
    using that t by (auto dest: tracks_pending split: if_splits)
  show "(j = IdNum n) = (r = p)" if "(j, m', r, d) \<in> set (timers (complete i q out st))" for j m' r d
    using that t by (auto dest: tracks_timer)
  show "promises (complete i q out st) ! p = None
        \<and> (\<exists>d. (IdNum n, m, p, d) \<in> set (timers (complete i q out st)))"
    if "map_of (pendingRequests (complete i q out st)) (IdNum n) \<noteq> None"
  proof -
    from that have "i \<noteq> IdNum n" and "map_of (pendingRequests st) (IdNum n) \<noteq> None"
      by (auto split: if_splits)
    with iq t show ?thesis by (auto simp: complete_other dest: tracks_live)
  qed
qed

lemma gone_complete:
  assumes "gone n p v st" and "map_of (pendingRequests st) i \<noteq> None"
    and iq: "(i = IdNum n) = (q = p)"
  shows "gone n p v (complete i q out st)"
proof -
  from assms have "q \<noteq> p" by (auto simp: gone_def)
  with assms show ?thesis by (auto simp: gone_def complete_other)
qed

lemma tracks_emitted: "tracks n m p (st\<lparr>emitted := e\<rparr>) = tracks n m p st"
  by (simp add: tracks_def wf_client_def)

lemma gone_emitted: "gone n p v (st\<lparr>emitted := e\<rparr>) = gone n p v st"
  by (simp add: gone_def)

lemma tracks_buffer: "tracks n m p (st\<lparr>buffer := b\<rparr>) = tracks n m p st"
  by (simp add: tracks_def wf_client_def)

lemma gone_buffer: "gone n p v (st\<lparr>buffer := b\<rparr>) = gone n p v st"
  by (simp add: gone_def)

lemma tracks_written: "tracks n m p (st\<lparr>written := w\<rparr>) = tracks n m p st"
  by (simp add: tracks_def wf_client_def)

lemma gone_written: "gone n p v (st\<lparr>written := w\<rparr>) = gone n p v st"
  by (simp add: gone_def)

lemma tracks_process: "tracks n m p (st\<lparr>process := h\<rparr>) = tracks n m p st"
  by (simp add: tracks_def wf_client_def)

lemma gone_process: "gone n p v (st\<lparr>process := h\<rparr>) = gone n p v st"
  by (simp add: gone_def)

lemma tracks_now: "tracks n m p (st\<lparr>now := t\<rparr>) = tracks n m p st"
  by (simp add: tracks_def wf_client_def)

lemma gone_now: "gone n p v (st\<lparr>now := t\<rparr>) = gone n p v st"
  by (simp add: gone_def)

lemma handleMessage_consider:
  obtains (same) "handleMessage msg st = st"
  | (emit) m' ps where "handleMessage msg st = st\<lparr>emitted := emitted st @ [(m', ps)]\<rparr>"
  | (compl) i q out where "map_of (pendingRequests st) i = Some q"
      and "handleMessage msg st = complete i q out st"
      and "m_id msg = Some i" and "m_result msg \<noteq> None \<or> m_error msg \<noteq> None"
  using handleMessage_cases [of msg st] by blast

lemma tracks_handleMessage:
  assumes t: "tracks n m p st"
  shows "tracks n m p (handleMessage msg st)"
proof (cases msg st rule: handleMessage_consider)
  case same
  with t show ?thesis by simp
next
  case (emit m' ps)
  with t show ?thesis by (simp add: tracks_emitted)
next
  case (compl i q out)
  from tracks_pending [OF t compl(1)] have "(i = IdNum n) = (q = p)" .
  with t compl(2) show ?thesis by (simp add: tracks_complete)
qed

lemma gone_handleMessage:
  assumes t: "tracks n m p st" and g: "gone n p v st"
  shows "gone n p v (handleMessage msg st)"
proof (cases msg st rule: handleMessage_consider)
  case same
  with g show ?thesis by simp
next
  case (emit m' ps)
  with g show ?thesis by (simp add: gone_emitted)
next
  case (compl i q out)
  from tracks_pending [OF t compl(1)] have "(i = IdNum n) = (q = p)" .
  with g compl show ?thesis by (simp add: gone_complete)
qed

lemma tracks_processBuffer: "tracks n m p st \<Longrightarrow> tracks n m p (processBuffer parse st)"
  by (rule processBuffer_preserves [where P = "tracks n m p"])
     (simp_all add: tracks_handleMessage tracks_buffer)

lemma gone_processBuffer:
  assumes "tracks n m p st" and "gone n p v st"
  shows "gone n p v (processBuffer parse st)"
proof -
  have "tracks n m p (processBuffer parse st) \<and> gone n p v (processBuffer parse st)"
    by (rule processBuffer_preserves [where P = "\<lambda>s. tracks n m p s \<and> gone n p v s"])
       (auto simp: assms tracks_buffer gone_buffer intro: tracks_handleMessage gone_handleMessage)
  then show ?thesis ..
qed


lemma sendRequest_unfold:
  "sendRequest m' ps st =
     (let n' = requestId st + 1; p' = length (promises st);
          st2 = st\<lparr>requestId := n', promises := promises st @ [None],
                   pendingRequests := AList.update (IdNum n') p' (pendingRequests st)\<rparr>
      in (p', case process st of
                None \<Rightarrow> settle p' (Rejected (Error ''TypeScript Language Server not running'')) st2
              | Some h \<Rightarrow> st2\<lparr>written := written st2 @ [request n' m' ps],
                               timers := timers st2 @ [(IdNum n', m', p', now st + 10000)]\<rparr>))"
  by (simp add: sendRequest_def sendMessage_def Let_def split: option.splits)

lemma sendRequest_fields:
  "requestId (snd (sendRequest m' ps st)) = requestId st + 1"
  "map_of (pendingRequests (snd (sendRequest m' ps st)))
     = (map_of (pendingRequests st))(IdNum (requestId st + 1) \<mapsto> length (promises st))"
  "length (promises (snd (sendRequest m' ps st))) = Suc (length (promises st))"
  "q < length (promises st) \<Longrightarrow> promises (snd (sendRequest m' ps st)) ! q = promises st ! q"
  "set (timers (snd (sendRequest m' ps st))) =
     set (timers st) \<union> (case process st of None \<Rightarrow> {}
        | Some h \<Rightarrow> {(IdNum (requestId st + 1), m', length (promises st), now st + 10000)})"
  "fst (sendRequest m' ps st) = length (promises st)"
  "now (snd (sendRequest m' ps st)) = now st"
  by (auto simp: sendRequest_unfold Let_def update_conv' settle_def nth_append split: option.splits)

lemma wf_sendRequest:
  assumes "wf_client st" shows "wf_client (snd (sendRequest m' ps st))"
proof (rule wf_clientI)
  fix i q assume "map_of (pendingRequests (snd (sendRequest m' ps st))) i = Some q"
  then show "q < length (promises (snd (sendRequest m' ps st)))
      \<and> (\<exists>k. i = IdNum k \<and> k \<le> requestId (snd (sendRequest m' ps st)))"
    using wf_pendingD [OF assms, of i q]
    by (auto simp: sendRequest_fields split: if_splits)
next
  fix i m q d assume "(i, m, q, d) \<in> set (timers (snd (sendRequest m' ps st)))"
  then show "q < length (promises (snd (sendRequest m' ps st)))
      \<and> (\<exists>k. i = IdNum k \<and> k \<le> requestId (snd (sendRequest m' ps st)))"
    using wf_timerD [OF assms, of i m q d]
    by (auto simp: sendRequest_fields split: option.splits)
qed

lemma tracks_sendRequest:
  assumes t: "tracks n m p st"
  shows "tracks n m p (snd (sendRequest m' ps st))" (is "tracks n m p ?s")
proof (rule tracksI)
  note le = tracks_le [OF t] and lt = tracks_lt [OF t] and wf = tracks_wf [OF t]
  show "wf_client ?s" using wf by (rule wf_sendRequest)
  show "n \<le> requestId ?s" using le by (simp add: sendRequest_fields)
  show "p < length (promises ?s)" using lt by (simp add: sendRequest_fields)
  show "(i = IdNum n) = (q = p)" if "map_of (pendingRequests ?s) i = Some q" for i q
    using that le lt tracks_pending [OF t, of i q]
    by (auto simp: sendRequest_fields split: if_splits)
  show "(i = IdNum n) = (q = p)" if "(i, m'', q, d) \<in> set (timers ?s)" for i m'' q d
    using that le lt tracks_timer [OF t, of i m'' q d]
    by (auto simp: sendRequest_fields split: option.splits)
  show "promises ?s ! p = None \<and> (\<exists>d. (IdNum n, m, p, d) \<in> set (timers ?s))"
    if "map_of (pendingRequests ?s) (IdNum n) \<noteq> None"
    using that le lt tracks_live [OF t]
    by (auto simp: sendRequest_fields split: if_splits)
qed

lemma gone_sendRequest:
  assumes t: "tracks n m p st" and g: "gone n p v st"
  shows "gone n p v (snd (sendRequest m' ps st))"
  using g tracks_le [OF t] tracks_lt [OF t]
  by (auto simp: gone_def sendRequest_fields)


lemma close_fold:
  "\<exists>w. foldl (\<lambda>s uri. case sendNotification m (f uri) s of Inl e \<Rightarrow> s | Inr s' \<Rightarrow> s') st uris
        = st\<lparr>written := w\<rparr>"
proof (induction uris arbitrary: st)
  case Nil
  show ?case by (simp, rule exI [of _ "written st"]) simp
next
  case (Cons u uris)
  show ?case
  proof (cases "sendNotification m (f u) st")
    case (Inl e)
    with Cons [of st] show ?thesis by simp
  next
    case (Inr s')
    then have "s' = st\<lparr>written := written st @ [notification m (f u)]\<rparr>"
      by (rule sendNotification_Inr)
    with Inr Cons [of s'] show ?thesis by auto
  qed
qed

lemma cleanup_fields:
  "pendingRequests (cleanup st) = []"
  "promises (cleanup st) = promises st"
  "timers (cleanup st) = timers st"
  "requestId (cleanup st) = requestId st"
  "initialized (cleanup st) = False"
  "openDocuments (cleanup st) = []"
  "process (cleanup st) = None"
  "killed (cleanup st) = killed st @ (case process st of None \<Rightarrow> [] | Some h \<Rightarrow> [h])"
proof -
  obtain w where w: "foldl (\<lambda>s uri.
       case sendNotification ''textDocument/didClose'' (didCloseParams uri) s of
         Inl e \<Rightarrow> s | Inr s' \<Rightarrow> s')
     (st\<lparr>initialized := False, pendingRequests := []\<rparr>) (openDocuments st)
     = st\<lparr>initialized := False, pendingRequests := [], written := w\<rparr>"
    using close_fold [of "''textDocument/didClose''" didCloseParams
        "st\<lparr>initialized := False, pendingRequests := []\<rparr>" "openDocuments st"]
    by auto
  show "pendingRequests (cleanup st) = []" "promises (cleanup st) = promises st"
    "timers (cleanup st) = timers st" "requestId (cleanup st) = requestId st"
    "initialized (cleanup st) = False" "openDocuments (cleanup st) = []"
    "process (cleanup st) = None"
    "killed (cleanup st) = killed st @ (case process st of None \<Rightarrow> [] | Some h \<Rightarrow> [h])"
    by (simp_all add: cleanup_def Let_def w split: option.splits)
qed

lemma tracks_cleanup:
  assumes t: "tracks n m p st" shows "tracks n m p (cleanup st)"
proof (rule tracksI)
  show "wf_client (cleanup st)"
    using tracks_wf [OF t] by (auto intro!: wf_clientI simp: cleanup_fields dest: wf_timerD)
  show "n \<le> requestId (cleanup st)" using tracks_le [OF t] by (simp add: cleanup_fields)
  show "p < length (promises (cleanup st))" using tracks_lt [OF t] by (simp add: cleanup_fields)
  show "(i = IdNum n) = (q = p)" if "map_of (pendingRequests (cleanup st)) i = Some q" for i q
    using that by (simp add: cleanup_fields)
  show "(i = IdNum n) = (q = p)" if "(i, m', q, d) \<in> set (timers (cleanup st))" for i m' q d
    using that tracks_timer [OF t] by (simp add: cleanup_fields)
  show "promises (cleanup st) ! p = None \<and> (\<exists>d. (IdNum n, m, p, d) \<in> set (timers (cleanup st)))"
    if "map_of (pendingRequests (cleanup st)) (IdNum n) \<noteq> None"
    using that by (simp add: cleanup_fields)
qed

lemma gone_cleanup: "gone n p (promises st ! p) (cleanup st)"
  by (simp add: gone_def cleanup_fields)

lemma set_remove_nth:
  "k < length xs \<Longrightarrow> set xs = insert (xs ! k) (set (take k xs @ drop (Suc k) xs))"
proof -
  assume "k < length xs"
  then have "xs = take k xs @ xs ! k # drop (Suc k) xs" by (rule id_take_nth_drop)
  then have "set xs = set (take k xs @ xs ! k # drop (Suc k) xs)" by simp
  then show ?thesis by simp
qed

lemma tracks_timers_removed:
  assumes t: "tracks n m p st" and k: "k < length (timers st)"
    and x: "timers st ! k = (i, m', q, d)"
    and keep: "map_of (pendingRequests st) (IdNum n) \<noteq> None \<Longrightarrow> i \<noteq> IdNum n"
  shows "tracks n m p (st\<lparr>timers := take k (timers st) @ drop (Suc k) (timers st)\<rparr>)"
    (is "tracks n m p ?s")
proof (rule tracksI)
  have sub: "set (timers ?s) \<subseteq> set (timers st)"
    using set_remove_nth [OF k] by auto
  show "wf_client ?s"
  proof (rule wf_clientI)
    fix j r assume "map_of (pendingRequests ?s) j = Some r"
    then show "r < length (promises ?s) \<and> (\<exists>k. j = IdNum k \<and> k \<le> requestId ?s)"
      using wf_pendingD [OF tracks_wf [OF t], of j r] by simp
  next
    fix j m'' r d assume "(j, m'', r, d) \<in> set (timers ?s)"
    with sub have "(j, m'', r, d) \<in> set (timers st)" by blast
    then show "r < length (promises ?s) \<and> (\<exists>k. j = IdNum k \<and> k \<le> requestId ?s)"
      using wf_timerD [OF tracks_wf [OF t], of j m'' r d] by simp
  qed
  show "n \<le> requestId ?s" using tracks_le [OF t] by simp
  show "p < length (promises ?s)" using tracks_lt [OF t] by simp
  show "(j = IdNum n) = (r = p)" if "map_of (pendingRequests ?s) j = Some r" for j r
    using that tracks_pending [OF t] by simp
  show "(j = IdNum n) = (r = p)" if "(j, m'', r, d) \<in> set (timers ?s)" for j m'' r d
    using that sub tracks_timer [OF t] by blast
  show "promises ?s ! p = None \<and> (\<exists>d. (IdNum n, m, p, d) \<in> set (timers ?s))"
    if "map_of (pendingRequests ?s) (IdNum n) \<noteq> None"
  proof -
    from that have live: "map_of (pendingRequests st) (IdNum n) \<noteq> None" by simp
    from tracks_live [OF t live] have none: "promises st ! p = None"
      and "(\<exists>d. (IdNum n, m, p, d) \<in> set (timers st))" by simp_all
    then obtain d' where ours: "(IdNum n, m, p, d') \<in> set (timers st)" by blast
    moreover from keep [OF live] x have "(IdNum n, m, p, d') \<noteq> timers st ! k" by auto
    ultimately have "(IdNum n, m, p, d') \<in> set (timers ?s)"
      using set_remove_nth [OF k] by auto
    then have "\<exists>d. (IdNum n, m, p, d) \<in> set (timers ?s)" ..
    with none show ?thesis by simp
  qed
qed

lemma fireTimer_consider:
  obtains (idle) "fireTimer k st = st"
  | (runs) i m q d where "k < length (timers st)" and "timers st ! k = (i, m, q, d)"
      and "d \<le> now st"
      and "fireTimer k st
           = requestTimeout i m q (st\<lparr>timers := take k (timers st) @ drop (Suc k) (timers st)\<rparr>)"
proof (cases "k < length (timers st)")
  case False
  then show ?thesis by (simp add: fireTimer_def idle)
next
  case True
  obtain i m q d where x: "timers st ! k = (i, m, q, d)" by (cases "timers st ! k")
  show ?thesis
  proof (cases "d \<le> now st")
    case False
    with True x show ?thesis by (simp add: fireTimer_def idle)
  next
    case d: True
    with True x show ?thesis by (intro runs [of i m q d]) (simp_all add: fireTimer_def)
  qed
qed

lemma tracks_fireTimer:
  assumes t: "tracks n m p st" shows "tracks n m p (fireTimer k st)"
proof (cases k st rule: fireTimer_consider)
  case idle
  with t show ?thesis by simp
next
  case (runs i m' q d)
  note True = runs(1) and x = runs(2) and fire = runs(4)
  let ?s = "st\<lparr>timers := take k (timers st) @ drop (Suc k) (timers st)\<rparr>"
  from True x have mem: "(i, m', q, d) \<in> set (timers st)" by (metis nth_mem)
  from tracks_timer [OF t mem] have iq: "(i = IdNum n) = (q = p)" .
  show ?thesis
  proof (cases "map_of (pendingRequests st) i")
    case None
    then have "map_of (pendingRequests st) (IdNum n) \<noteq> None \<Longrightarrow> i \<noteq> IdNum n" by auto
    from tracks_timers_removed [OF t True x this] None fire
    show ?thesis by (simp add: requestTimeout_cases)
  next
    case (Some r)
    have c: "requestTimeout i m' q ?s
        = (complete i q (Rejected (Error (''Request timeout: '' @ m'))) st)
            \<lparr>timers := take k (timers st) @ drop (Suc k) (timers st)\<rparr>"
      using Some by (simp add: requestTimeout_cases complete_def settle_def)
    let ?c = "complete i q (Rejected (Error (''Request timeout: '' @ m'))) st"
    have tc: "tracks n m p ?c" using t iq by (rule tracks_complete)
    have "tracks n m p (?c\<lparr>timers := take k (timers ?c) @ drop (Suc k) (timers ?c)\<rparr>)"
    proof (rule tracks_timers_removed [OF tc])
      show "k < length (timers ?c)" using True by simp
      show "timers ?c ! k = (i, m', q, d)" using x by simp
      show "i \<noteq> IdNum n" if "map_of (pendingRequests ?c) (IdNum n) \<noteq> None"
        using that by (auto split: if_splits)
    qed
    with fire c show ?thesis by simp
  qed
qed

lemma gone_fireTimer:
  assumes t: "tracks n m p st" and g: "gone n p v st"
  shows "gone n p v (fireTimer k st)"
proof (cases k st rule: fireTimer_consider)
  case idle
  with g show ?thesis by simp
next
  case (runs i m' q d)
  note True = runs(1) and x = runs(2) and fire = runs(4)
  let ?s = "st\<lparr>timers := take k (timers st) @ drop (Suc k) (timers st)\<rparr>"
  from True x have mem: "(i, m', q, d) \<in> set (timers st)" by (metis nth_mem)
  from tracks_timer [OF t mem] have iq: "(i = IdNum n) = (q = p)" .
  have gs: "gone n p v ?s" using g by (simp add: gone_def)
  show ?thesis
  proof (cases "map_of (pendingRequests st) i")
    case None
    with fire gs show ?thesis by (simp add: requestTimeout_cases)
  next
    case (Some r)
    then have "map_of (pendingRequests ?s) i \<noteq> None" by simp
    from gone_complete [OF gs this iq] Some fire show ?thesis
      by (simp add: requestTimeout_cases)
  qed
qed

lemma tracks_step: "tracks n m p st \<Longrightarrow> tracks n m p (step parse e st)"
  by (cases e)
     (auto simp: tracks_sendRequest tracks_fireTimer tracks_cleanup tracks_process tracks_now
        onData_def
        tracks_written tracks_buffer intro!: tracks_processBuffer
        dest!: sendNotification_Inr split: sum.splits)

lemma gone_step:
  "tracks n m p st \<Longrightarrow> gone n p v st \<Longrightarrow> gone n p v (step parse e st)"
proof (cases e)
  case (StdoutData chunk)
  assume "tracks n m p st" "gone n p v st"
  then have "tracks n m p (st\<lparr>buffer := buffer st @ chunk\<rparr>)"
    "gone n p v (st\<lparr>buffer := buffer st @ chunk\<rparr>)"
    by (simp_all add: tracks_buffer gone_buffer)
  then show ?thesis using StdoutData by (simp add: onData_def gone_processBuffer)
next
  case ProcessExit
  assume "tracks n m p st" "gone n p v st"
  then show ?thesis using ProcessExit gone_cleanup [of n p st] by (simp add: gone_def)
qed (auto simp: gone_sendRequest gone_fireTimer gone_process gone_written gone_now
       dest!: sendNotification_Inr split: sum.splits)

lemma settled_forever:
  "tracks n m p st \<Longrightarrow> gone n p v st \<Longrightarrow>
   tracks n m p (run parse es st) \<and> gone n p v (run parse es st)"
  by (induction es arbitrary: st) (simp_all add: tracks_step gone_step)

lemma tracks_run: "tracks n m p st \<Longrightarrow> tracks n m p (run parse es st)"
  by (induction es arbitrary: st) (simp_all add: tracks_step)

lemma tracks_after_send:
  assumes wf: "wf_client st" and run: "process st = Some h"
  shows "tracks (requestId st + 1) m (length (promises st)) (snd (sendRequest m ps st))"
    (is "tracks ?n m ?p ?s")
proof (rule tracksI)
  show "wf_client ?s" using wf by (rule wf_sendRequest)
  show "?n \<le> requestId ?s" by (simp add: sendRequest_fields)
  show "?p < length (promises ?s)" by (simp add: sendRequest_fields)
  show "(i = IdNum ?n) = (q = ?p)" if "map_of (pendingRequests ?s) i = Some q" for i q
    using that wf_pendingD [OF wf, of i q] by (auto simp: sendRequest_fields split: if_splits)
  show "(i = IdNum ?n) = (q = ?p)" if "(i, m', q, d) \<in> set (timers ?s)" for i m' q d
    using that wf_timerD [OF wf, of i m' q d] run by (auto simp: sendRequest_fields)
  show "promises ?s ! ?p = None \<and> (\<exists>d. (IdNum ?n, m, ?p, d) \<in> set (timers ?s))"
  proof
    show "promises ?s ! ?p = None" using run by (simp add: sendRequest_unfold Let_def)
    have "(IdNum ?n, m, ?p, now st + 10000) \<in> set (timers ?s)"
      using run by (simp add: sendRequest_fields(5))
    then show "\<exists>d. (IdNum ?n, m, ?p, d) \<in> set (timers ?s)" ..
  qed
qed

lemma pending_after_send:
  "map_of (pendingRequests (snd (sendRequest m ps st))) (IdNum (requestId st + 1))
   = Some (length (promises st))"
  by (simp add: sendRequest_fields)


text \<open>
  C1 (the code departs from the specification when the subprocess exits). A request is
  sent to a running subprocess by a well-formed client (every client is, see the last
  section); its promise is unsettled. The subprocess exits and the \<open>exit\<close> handler
  runs \<open>cleanup\<close>, which clears \<open>pendingRequests\<close> without calling any continuation.
  From then on nothing settles the promise, whatever happens later: the timeout finds the
  id absent from the map and does nothing, and so does a late response. The caller of
  \<open>sendRequest\<close> waits for ever, where the specification says that it gets a result or
  an error.
\<close>

theorem C1_pending_request_lost_at_exit:
  assumes wf: "wf_client st" and run: "process st = Some h"
    and send: "sendRequest method params st = (p, st1)"
  shows "promises st1 ! p = None \<and> (\<forall>es. promises (run parse es (cleanup st1)) ! p = None)"
proof -
  from send have p: "p = length (promises st)" and st1: "st1 = snd (sendRequest method params st)"
    using sendRequest_fields(6) [of "method" "params" st] by simp_all
  have t: "tracks (requestId st + 1) method p st1"
    unfolding p st1 using wf run by (rule tracks_after_send)
  have live: "map_of (pendingRequests st1) (IdNum (requestId st + 1)) \<noteq> None"
    unfolding st1 by (simp add: pending_after_send)
  from tracks_live [OF t live] have none: "promises st1 ! p = None" by simp
  have tc: "tracks (requestId st + 1) method p (cleanup st1)" using t by (rule tracks_cleanup)
  have gc: "gone (requestId st + 1) p None (cleanup st1)"
    using gone_cleanup [of "requestId st + 1" p st1] none by simp
  have "promises (run parse es (cleanup st1)) ! p = None" for es
    using settled_forever [OF tc gc, of parse es] by (simp add: gone_def)
  with none show ?thesis by simp
qed

theorem C1_pending_request_lost_at_exit_witness:
  "promises (snd (sendRequest ''textDocument/hover'' JNull running_client)) ! 1 = None
   \<and> promises
        (run (\<lambda>s. Some late_response)
           [TimerRuns 0, StdoutData (fullMessage ''{}''), ProcessStarted 8,
            CallSendRequest ''textDocument/hover'' JNull, TimerRuns 0]
           (cleanup (snd (sendRequest ''textDocument/hover'' JNull running_client)))) ! 1
       = None"
proof -
  have wf: "wf_client running_client"
    by (simp add: wf_client_def running_client_def new_client_def)
  have pr: "process running_client = Some 7"
    by (simp add: running_client_def)
  have send: "sendRequest ''textDocument/hover'' JNull running_client
      = (1, snd (sendRequest ''textDocument/hover'' JNull running_client))"
    using sendRequest_fields(6) [of "''textDocument/hover''" JNull running_client]
    by (simp add: running_client_def new_client_def prod_eq_iff)
  from C1_pending_request_lost_at_exit [OF wf pr send, of "\<lambda>s. Some late_response"]
  show ?thesis by blast
qed

section \<open>The messages a client handles\<close>












section \<open>A request and its timeout\<close>





lemma now_complete [simp]: "now (complete i q out st) = now st"
  by (simp add: complete_def settle_def)














section \<open>Framing\<close>

lemma digit_chars: "d < 10 \<Longrightarrow> isDigit (''0123456789'' ! d) \<and> digitValue (''0123456789'' ! d) = d"
proof -
  assume "d < 10"
  then have "d \<in> {0, 1, 2, 3, 4, 5, 6, 7, 8, 9}" by auto
  then show ?thesis by (auto simp: isDigit_def digitValue_def)
qed

lemma decimal_digits: "decimal n \<noteq> [] \<and> (\<forall>c \<in> set (decimal n). isDigit c)"
proof (induction n rule: decimal.induct)
  case (1 n)
  show ?case
  proof (cases "n < 10")
    case True
    then show ?thesis by (subst (1 2) decimal.simps) (simp add: digit_chars)
  next
    case False
    with 1 show ?thesis by (subst (1 2) decimal.simps) (simp add: digit_chars)
  qed
qed

lemma parseInt_snoc: "parseInt (xs @ [c]) = 10 * parseInt xs + digitValue c"
  by (simp add: parseInt_def)

lemma parseInt_decimal: "parseInt (decimal n) = n"
proof (induction n rule: decimal.induct)
  case (1 n)
  show ?case
  proof (cases "n < 10")
    case True
    then show ?thesis by (subst decimal.simps) (simp add: parseInt_def digit_chars)
  next
    case False
    with 1 show ?thesis by (subst decimal.simps) (simp add: parseInt_snoc digit_chars)
  qed
qed

lemma startsWith_append: "startsWith (p @ rest) p"
  by (induction p) auto

lemma startsWith_decompose: "startsWith s p \<Longrightarrow> s = p @ drop (length p) s"
  by (induction s p rule: startsWith.induct) auto

lemma fullMessage_header: "fullMessage s = header (byteLength s) @ s"
  by (simp add: fullMessage_def header_def)

lemma length_header: "length (header n) = 16 + length (decimal n) + 4"
  by (simp add: header_def CRLF2_def)

lemma takeWhile_digits: "takeWhile isDigit (decimal n @ CRLF2 @ rest) = decimal n"
proof -
  have "\<not> isDigit (CHR 0x0D)" by (simp add: isDigit_def)
  then show ?thesis using decimal_digits [of n] by (simp add: takeWhile_append CRLF2_def)
qed

lemma matchHeaderAt_header:
  "matchHeaderAt (header n @ rest) = Some (decimal n, length (header n))"
proof -
  have s: "header n @ rest = ''Content-Length: '' @ (decimal n @ CRLF2 @ rest)"
    by (simp add: header_def)
  have sw: "startsWith (header n @ rest) ''Content-Length: ''"
    unfolding s by (rule startsWith_append)
  have d: "drop 16 (header n @ rest) = decimal n @ CRLF2 @ rest"
    unfolding s by simp
  have after: "drop (length (decimal n)) (decimal n @ CRLF2 @ rest) = CRLF2 @ rest"
    by simp
  show ?thesis
    unfolding matchHeaderAt_def d Let_def takeWhile_digits after
    using sw decimal_digits [of n] startsWith_append [of CRLF2 rest]
    by (simp add: length_header)
qed

lemma matchHeader_header:
  "matchHeader (header n @ rest) = Some (decimal n, length (header n))"
proof -
  obtain c cs where "header n @ rest = c # cs"
    by (cases "header n @ rest") (simp_all add: header_def)
  then show ?thesis using matchHeaderAt_header [of n rest] by simp
qed

lemma lfs_append: "lfs (xs @ ys) = lfs xs + lfs ys"
  by (simp add: lfs_def)

lemma lfs_Cons_le: "lfs cs \<le> lfs (c # cs)"
  by (simp add: lfs_def)

lemma matchHeaderAt_lfs: "matchHeaderAt s = Some r \<Longrightarrow> 2 \<le> lfs s"
proof -
  assume m: "matchHeaderAt s = Some r"
  let ?rest = "drop 16 s"
  let ?ds = "takeWhile isDigit ?rest"
  from m have sw: "startsWith (drop (length ?ds) ?rest) CRLF2"
    by (auto simp: matchHeaderAt_def Let_def split: if_splits)
  from startsWith_decompose [OF sw] obtain t where t: "drop (length ?ds) ?rest = CRLF2 @ t"
    by blast
  have "?rest = take (length ?ds) ?rest @ drop (length ?ds) ?rest"
    by (simp only: append_take_drop_id)
  with t have r: "?rest = take (length ?ds) ?rest @ CRLF2 @ t" by (simp only:)
  have "s = take 16 s @ ?rest" by (simp only: append_take_drop_id)
  then have "lfs s = lfs (take 16 s) + lfs ?rest" by (metis lfs_append)
  moreover from r have "lfs ?rest = lfs (take (length ?ds) ?rest) + lfs CRLF2 + lfs t"
    by (metis lfs_append add.assoc)
  moreover have "lfs CRLF2 = 2" by (simp add: lfs_def CRLF2_def)
  ultimately show ?thesis by simp
qed

lemma matchHeader_lfs: "matchHeader s = Some r \<Longrightarrow> 2 \<le> lfs s"
proof (induction s)
  case Nil
  then show ?case by simp
next
  case (Cons c cs)
  show ?case
  proof (cases "matchHeaderAt (c # cs)")
    case None
    with Cons have "2 \<le> lfs cs" by simp
    with lfs_Cons_le [of cs c] show ?thesis by simp
  next
    case (Some r')
    then show ?thesis by (rule matchHeaderAt_lfs)
  qed
qed

lemma lfs_take: "lfs (take k xs) \<le> lfs xs"
proof -
  have "lfs xs = lfs (take k xs) + lfs (drop k xs)"
    by (metis append_take_drop_id lfs_append)
  then show ?thesis by simp
qed

lemma lfs_decimal: "lfs (decimal n) = 0"
proof -
  have "\<not> isDigit (CHR 0x0A)" by (simp add: isDigit_def)
  with decimal_digits [of n] have "\<forall>c \<in> set (decimal n). c \<noteq> CHR 0x0A" by auto
  then show ?thesis by (simp add: lfs_def filter_empty_conv)
qed

lemma take_prefix: "k \<le> length xs \<Longrightarrow> take k (xs @ ys) = take k xs"
  by simp

lemma header_prefix_no_match:
  assumes "k < length (header n)"
  shows "matchHeader (take k (header n)) = None"
proof -
  let ?p = "''Content-Length: '' @ decimal n @ [CHR 0x0D, CHR 0x0A, CHR 0x0D]"
  have h: "header n = ?p @ [CHR 0x0A]" by (simp add: header_def CRLF2_def)
  from assms have "k \<le> length ?p" by (simp add: h)
  then have "take k (header n) = take k ?p" unfolding h by (rule take_prefix)
  moreover have "lfs ?p = 1"
  proof -
    have "lfs ?p = lfs ''Content-Length: '' + (lfs (decimal n) + lfs [CHR 0x0D, CHR 0x0A, CHR 0x0D])"
      by (simp only: lfs_append)
    also have "\<dots> = 1" by (simp add: lfs_decimal) (simp add: lfs_def)
    finally show ?thesis .
  qed
  ultimately have "lfs (take k (header n)) \<le> 1" using lfs_take [of k ?p] by simp
  then show ?thesis using matchHeader_lfs [of "take k (header n)"]
    by (cases "matchHeader (take k (header n))") auto
qed

lemma byteLength_ascii: "\<forall>c \<in> set s. (of_char c :: nat) < 128 \<Longrightarrow> byteLength s = length s"
  by (induction s) (simp_all add: byteLength_def)

lemma buffer_deliver: "buffer (deliver parse s st) = buffer st"
  by (simp add: deliver_def buffer_handleMessage split: option.splits)

lemma processBuffer_empty: "buffer st = [] \<Longrightarrow> processBuffer parse st = st"
  by (simp add: processBuffer_unfold_None)

lemma waiting:
  assumes k: "k < length (header (length s) @ s)"
  shows "processBuffer parse (st\<lparr>buffer := take k (header (length s) @ s)\<rparr>)
         = st\<lparr>buffer := take k (header (length s) @ s)\<rparr>"
proof (cases "k < length (header (length s))")
  case True
  then have t: "take k (header (length s) @ s) = take k (header (length s))"
    by (intro take_prefix) simp
  have "matchHeader (buffer (st\<lparr>buffer := take k (header (length s))\<rparr>)) = None"
    using header_prefix_no_match [OF True] by simp
  then show ?thesis unfolding t by (rule processBuffer_unfold_None)
next
  case False
  let ?h = "header (length s)"
  from False have b: "take k (?h @ s) = ?h @ take (k - length ?h) s" by simp
  let ?st = "st\<lparr>buffer := ?h @ take (k - length ?h) s\<rparr>"
  have m: "matchHeader (buffer ?st) = Some (decimal (length s), length ?h)"
    using matchHeader_header [of "length s" "take (k - length ?h) s"] by simp
  have short: "length (buffer ?st) < length ?h + parseInt (decimal (length s))"
    using k False by (simp add: parseInt_decimal)
  show ?thesis
    unfolding b by (rule processBuffer_unfold_short [OF m short])
qed

lemma delivered:
  assumes "buffer st = []"
  shows "processBuffer parse (st\<lparr>buffer := header (length s) @ s\<rparr>) = deliver parse s st"
proof -
  let ?h = "header (length s)"
  let ?st = "st\<lparr>buffer := ?h @ s\<rparr>"
  have m: "matchHeader (buffer ?st) = Some (decimal (length s), length ?h)"
    using matchHeader_header [of "length s" s] by simp
  have enough: "\<not> length (buffer ?st) < length ?h + parseInt (decimal (length s))"
    by (simp add: parseInt_decimal)
  have sl: "slice (buffer ?st) (length ?h) (length ?h + parseInt (decimal (length s))) = s"
    by (simp add: slice_def parseInt_decimal)
  have rest: "?st\<lparr>buffer := drop (length ?h + parseInt (decimal (length s))) (buffer ?st)\<rparr> = st"
    using assms by (simp add: parseInt_decimal)
  have "processBuffer parse ?st = processBuffer parse (deliver parse s st)"
    unfolding processBuffer_unfold_message [OF m enough] sl rest deliver_def ..
  also have "\<dots> = deliver parse s st"
    using assms by (simp add: processBuffer_empty buffer_deliver)
  finally show ?thesis .
qed

lemma idle:
  "buffer st = [] \<Longrightarrow> concat chunks = [] \<Longrightarrow> feed parse chunks st = st"
proof (induction chunks)
  case Nil
  then show ?case by (simp add: feed_def)
next
  case (Cons c cs)
  then have c: "c = []" and cs: "concat cs = []" by simp_all
  from Cons.prems(1) have "st\<lparr>buffer := []\<rparr> = st" by simp
  with Cons.prems(1) have "onData parse [] st = st"
    by (simp add: onData_def processBuffer_empty)
  with Cons.IH [OF Cons.prems(1) cs] c show ?case by (simp add: feed_def)
qed

lemma feed_frame:
  assumes "buffer st = []"
  shows "length b < length (header (length s) @ s) \<Longrightarrow>
         b @ concat chunks = header (length s) @ s \<Longrightarrow>
         feed parse chunks (st\<lparr>buffer := b\<rparr>) = deliver parse s st"
proof (induction chunks arbitrary: b)
  case Nil
  then show ?case by simp
next
  case (Cons c cs)
  let ?f = "header (length s) @ s"
  have step: "feed parse (c # cs) (st\<lparr>buffer := b\<rparr>)
      = feed parse cs (processBuffer parse (st\<lparr>buffer := b @ c\<rparr>))"
    by (simp add: feed_def onData_def)
  from Cons.prems(2) have whole: "(b @ c) @ concat cs = ?f" by simp
  show ?case
  proof (cases "length (b @ c) < length ?f")
    case True
    from whole have "b @ c = take (length (b @ c)) ?f"
      by (metis append_eq_conv_conj)
    with waiting [OF True, of parse st]
    have "processBuffer parse (st\<lparr>buffer := b @ c\<rparr>) = st\<lparr>buffer := b @ c\<rparr>" by simp
    with step Cons.IH [OF True whole] show ?thesis by simp
  next
    case False
    with whole have all: "b @ c = ?f" and none: "concat cs = []"
      by (metis append_eq_conv_conj length_append add_diff_cancel_left' le_add1 length_0_conv
            linorder_not_less take_all_iff append_Nil2 drop_all)+
    have "processBuffer parse (st\<lparr>buffer := b @ c\<rparr>) = deliver parse s st"
      unfolding all using assms by (rule delivered)
    with step idle [OF _ none, of "deliver parse s st" parse] assms show ?thesis
      by (simp add: buffer_deliver)
  qed
qed

text \<open>
  Framing round trip on ASCII text. For a JSON text of ASCII characters only, the bytes
  are the characters: however the text that \<open>sendMessage\<close> writes is cut into chunks,
  a client with an empty buffer that receives them ends as after one \<open>deliver\<close> of the
  JSON text, with an empty buffer again; the text is parsed once and its message handled
  once.
\<close>

lemma framing_round_trip_ascii:
  assumes ascii: "\<forall>c \<in> set s. (of_char c :: nat) < 128"
    and chunks: "concat chunks = fullMessage s"
    and empty: "buffer st = []"
  shows "feed parse chunks st = deliver parse s st"
proof -
  from ascii have n: "byteLength s = length s" by (rule byteLength_ascii)
  have f: "fullMessage s = header (length s) @ s" by (simp add: fullMessage_header n)
  have "length ([] :: string) < length (header (length s) @ s)" by (simp add: length_header)
  moreover from chunks f have "[] @ concat chunks = header (length s) @ s" by simp
  ultimately have "feed parse chunks (st\<lparr>buffer := []\<rparr>) = deliver parse s st"
    using empty by (rule feed_frame [rotated])
  moreover from empty have "st\<lparr>buffer := []\<rparr> = st" by simp
  ultimately show ?thesis by simp
qed

lemma payload_e_acute_lengths:
  "byteLength payload_e_acute = 31 \<and> length payload_e_acute = 30"
  by (simp add: payload_e_acute_def byteLength_def)

lemma fullMessage_e_acute:
  "fullMessage payload_e_acute = ''Content-Length: 31'' @ CRLF2 @ payload_e_acute"
  using payload_e_acute_lengths by (simp add: fullMessage_def decimal.simps)

lemma matchHeader_e_acute: "matchHeader (fullMessage payload_e_acute) = Some (''31'', 22)"
  unfolding fullMessage_e_acute by (simp add: matchHeaderAt_def CRLF2_def isDigit_def)

lemma parseInt_31: "parseInt ''31'' = 31"
  by (simp add: parseInt_def digitValue_def)

lemma length_fullMessage_e_acute: "length (fullMessage payload_e_acute) = 52"
  unfolding fullMessage_e_acute using payload_e_acute_lengths by (simp add: CRLF2_def)

text \<open>
  C2 (the code departs from the specification on text that is not ASCII). \<open>sendMessage\<close> writes
  the byte length of the JSON text in the header; \<open>processBuffer\<close> compares the number
  it reads there with \<open>buffer.length\<close> and slices with it, which count UTF-16 code units
  of the decoded text. For the notification whose method is U+00E9 the JSON text has 30
  characters and 31 bytes: the frame is 52 characters long, the framer waits for 53 and
  delivers nothing, whatever \<open>JSON.parse\<close> would make of the text; the whole frame stays
  in the buffer. A client that had handled the message would have emitted its event.
\<close>

theorem C2_non_ascii_frame_not_delivered:
  "byteLength payload_e_acute = 31 \<and> length payload_e_acute = 30
   \<and> onData parse (fullMessage payload_e_acute) (new_client root)
       = (new_client root)\<lparr>buffer := fullMessage payload_e_acute\<rparr>
   \<and> onData parse (fullMessage payload_e_acute) (new_client root)
       \<noteq> handleMessage e_acute (new_client root)"
proof -
  have stay: "onData parse (fullMessage payload_e_acute) (new_client root)
      = (new_client root)\<lparr>buffer := fullMessage payload_e_acute\<rparr>"
    unfolding onData_def
    by (subst processBuffer.simps)
       (simp add: new_client_def matchHeader_e_acute parseInt_31 length_fullMessage_e_acute)
  have "emitted (handleMessage e_acute (new_client root)) = [([CHR 0xE9], None)]"
    by (simp add: handleMessage_def e_acute_def new_client_def)
  moreover have "emitted ((new_client root)\<lparr>buffer := fullMessage payload_e_acute\<rparr>) = []"
    by (simp add: new_client_def)
  ultimately have "emitted ((new_client root)\<lparr>buffer := fullMessage payload_e_acute\<rparr>)
      \<noteq> emitted (handleMessage e_acute (new_client root))"
    by simp
  then have "(new_client root)\<lparr>buffer := fullMessage payload_e_acute\<rparr>
      \<noteq> handleMessage e_acute (new_client root)"
    by metis
  with stay payload_e_acute_lengths show ?thesis by simp
qed

theorem C2_non_ascii_frame_not_delivered_witness:
  "emitted (onData (\<lambda>s. Some e_acute) (fullMessage payload_e_acute) (new_client ''/w'')) = []
   \<and> buffer (onData (\<lambda>s. Some e_acute) (fullMessage payload_e_acute) (new_client ''/w''))
       = fullMessage payload_e_acute"
  using C2_non_ascii_frame_not_delivered [of "\<lambda>s. Some e_acute" "''/w''"]
  by (simp add: new_client_def)

section \<open>The workspace manager: reuse, failed initialization, bulk teardown\<close>

lemma update_fresh:
  "map_of al k = None \<Longrightarrow> AList.update k v al = al @ [(k, v)]"
  by (induction al) (auto split: if_splits)

lemma wf_new_manager: "wf_manager new_manager"
  by (simp add: wf_manager_def new_manager_def)

lemma map_of_values_inj:
  assumes "distinct (map snd al)" and "map_of al k = Some v" and "map_of al k' = Some v"
  shows "k = k'"
proof -
  from assms(2,3) have "(k, v) \<in> set al" and "(k', v) \<in> set al"
    by (auto dest: map_of_SomeD)
  moreover from assms(1) have "inj_on snd (set al)" by (simp add: distinct_map)
  ultimately show ?thesis using inj_onD [of snd "set al" "(k, v)" "(k', v)"] by simp
qed

lemma getOrCreateWorkspace_cases:
  assumes "getOrCreateWorkspace env path mgr = (Inr c, mgr')"
  obtains (existing) "map_of (workspaces mgr) path = Some c" and "mgr' = mgr"
  | (created) cl where "map_of (workspaces mgr) path = None"
      and "initialize env (new_client path) = (None, cl)"
      and "c = length (heap mgr)"
      and "mgr' = mgr\<lparr>heap := heap mgr @ [cl], workspaces := workspaces mgr @ [(path, c)]\<rparr>"
      and "map_of (workspaces mgr') = (map_of (workspaces mgr))(path \<mapsto> c)"
proof (cases "map_of (workspaces mgr) path")
  case (Some c')
  with assms have "c' = c" and "mgr' = mgr" by (simp_all add: getOrCreateWorkspace_def)
  with Some show ?thesis by (simp add: existing)
next
  case None
  obtain err cl where i: "initialize env (new_client path) = (err, cl)"
    by (cases "initialize env (new_client path)")
  with None assms have err: "err = None" by (cases err) (simp_all add: getOrCreateWorkspace_def)
  with None assms i have c: "c = length (heap mgr)"
    and m: "mgr' = mgr\<lparr>heap := heap mgr @ [cl],
                workspaces := AList.update path c (workspaces mgr)\<rparr>"
    by (auto simp: getOrCreateWorkspace_def)
  from m None have "mgr' = mgr\<lparr>heap := heap mgr @ [cl],
                workspaces := workspaces mgr @ [(path, c)]\<rparr>"
    by (simp add: update_fresh)
  moreover from m have "map_of (workspaces mgr') = (map_of (workspaces mgr))(path \<mapsto> c)"
    by (simp add: update_conv')
  ultimately show ?thesis using None i err c by (intro created) simp_all
qed

lemma wf_getOrCreateWorkspace:
  assumes wf: "wf_manager mgr" and call: "getOrCreateWorkspace env path mgr = (res, mgr')"
  shows "wf_manager mgr'"
proof (cases res)
  case (Inl e)
  with call have "mgr' = mgr"
    by (auto simp: getOrCreateWorkspace_def split: option.splits prod.splits)
  with wf show ?thesis by simp
next
  case (Inr c)
  with call have "getOrCreateWorkspace env path mgr = (Inr c, mgr')" by simp
  then show ?thesis
  proof (cases rule: getOrCreateWorkspace_cases)
    case existing
    with wf show ?thesis by simp
  next
    case (created cl)
    from created(1) have "path \<notin> fst ` set (workspaces mgr)"
      by (simp add: map_of_eq_None_iff)
    moreover from wf have "length (heap mgr) \<notin> snd ` set (workspaces mgr)"
      by (auto simp: wf_manager_def)
    ultimately show ?thesis
      using wf created(3,4) by (auto simp: wf_manager_def less_Suc_eq)
  qed
qed

lemma getOrCreateWorkspace_registered:
  assumes "getOrCreateWorkspace env path mgr = (Inr c, mgr')"
  shows "map_of (workspaces mgr') path = Some c"
  using assms by (cases rule: getOrCreateWorkspace_cases) auto

lemma getOrCreateWorkspace_keeps:
  assumes "getOrCreateWorkspace env path mgr = (Inr c, mgr')" and "path' \<noteq> path"
  shows "map_of (workspaces mgr') path' = map_of (workspaces mgr) path'"
  using assms by (cases rule: getOrCreateWorkspace_cases) auto

lemma wf_closeAll: "closeAll rep mgr = Some mgr' \<Longrightarrow> wf_manager mgr'"
  by (auto simp: closeAll_def wf_manager_def split: option.splits)

lemma wf_closeWorkspace:
  assumes "wf_manager mgr" and "closeWorkspace rep path mgr = Some mgr'"
  shows "wf_manager mgr'"
proof (cases "map_of (workspaces mgr) path")
  case None
  with assms show ?thesis by (simp add: closeWorkspace_def)
next
  case (Some c)
  with assms(2) obtain c' where
    m: "mgr' = mgr\<lparr>heap := (heap mgr)[c := c'], workspaces := AList.delete path (workspaces mgr)\<rparr>"
    by (auto simp: closeWorkspace_def split: option.splits)
  have del: "AList.delete path (workspaces mgr) = filter (\<lambda>(k, v). path \<noteq> k) (workspaces mgr)"
    by (simp add: AList.delete_eq)
  have "distinct (map snd (AList.delete path (workspaces mgr)))"
    using assms(1) unfolding wf_manager_def del by (simp add: distinct_map_filter)
  moreover have "distinct (map fst (AList.delete path (workspaces mgr)))"
    using assms(1) by (simp add: wf_manager_def distinct_delete)
  moreover have "set (AList.delete path (workspaces mgr)) \<subseteq> set (workspaces mgr)"
    unfolding del by auto
  ultimately show ?thesis using assms(1) unfolding m wf_manager_def by auto
qed

lemma initialize_server_ok: "fst (initialize server_ok (new_client path)) = None"
  by (simp add: initialize_def server_ok_def new_client_def Let_def sendRequest_unfold
      handleMessage_def response_def settle_def sendNotification_def sendMessage_def
      split: prod.splits)

lemma initialize_server_missing:
  "fst (initialize server_missing (new_client path))
   = Some (Error ''Failed to start TypeScript Language Server: spawn typescript-language-server ENOENT'')"
  by (simp add: initialize_def server_missing_def new_client_def Let_def)

lemma getOrCreateWorkspace_new:
  assumes "map_of (workspaces mgr) path = None"
    and "fst (initialize env (new_client path)) = None"
  shows "getOrCreateWorkspace env path mgr
     = (Inr (length (heap mgr)),
        mgr\<lparr>heap := heap mgr @ [snd (initialize env (new_client path))],
            workspaces := AList.update path (length (heap mgr)) (workspaces mgr)\<rparr>)"
  using assms by (cases "initialize env (new_client path)") (simp add: getOrCreateWorkspace_def)

text \<open>
  C6. When a call of \<open>getOrCreateWorkspace\<close> has returned a client for a key, a second
  call with the same key returns the same reference and leaves the manager as it is: no
  client is created, whatever the subprocess would do now. A call with a different key
  returns a different reference. The manager is one that its own operations can produce
  (\<open>wf_manager\<close> holds of the empty manager and is kept by every operation).
\<close>

theorem C6_workspace_reuse:
  assumes first: "getOrCreateWorkspace env path mgr = (Inr c1, mgr1)"
  shows "getOrCreateWorkspace env' path mgr1 = (Inr c1, mgr1)
     \<and> (wf_manager mgr \<and> path' \<noteq> path
          \<and> getOrCreateWorkspace env' path' mgr1 = (Inr c2, mgr2) \<longrightarrow> c2 \<noteq> c1)"
proof -
  have reg: "map_of (workspaces mgr1) path = Some c1"
    using first by (rule getOrCreateWorkspace_registered)
  then have same: "getOrCreateWorkspace env' path mgr1 = (Inr c1, mgr1)"
    by (simp add: getOrCreateWorkspace_def)
  have "c2 \<noteq> c1"
    if wf: "wf_manager mgr" and ne: "path' \<noteq> path"
      and second: "getOrCreateWorkspace env' path' mgr1 = (Inr c2, mgr2)"
  proof -
    from wf first have wf1: "wf_manager mgr1" by (rule wf_getOrCreateWorkspace)
    from second show ?thesis
    proof (cases rule: getOrCreateWorkspace_cases)
      case existing
      show ?thesis
      proof
        assume "c2 = c1"
        with existing(1) reg wf1 have "path' = path"
          by (auto simp: wf_manager_def intro: map_of_values_inj)
        with ne show False by simp
      qed
    next
      case (created cl)
      from reg have "c1 \<in> set (map snd (workspaces mgr1))"
        by (auto dest: map_of_SomeD intro: rev_image_eqI)
      with wf1 have "c1 < length (heap mgr1)" by (auto simp: wf_manager_def)
      with created(3) show ?thesis by simp
    qed
  qed
  with same show ?thesis by blast
qed

theorem C6_workspace_reuse_witness:
  "fst (getOrCreateWorkspace server_ok ''/a#typescript-lsp'' new_manager) = Inr 0
   \<and> fst (getOrCreateWorkspace server_ok ''/a#typescript-lsp''
          (snd (getOrCreateWorkspace server_ok ''/a#typescript-lsp'' new_manager))) = Inr 0
   \<and> snd (getOrCreateWorkspace server_ok ''/a#typescript-lsp''
          (snd (getOrCreateWorkspace server_ok ''/a#typescript-lsp'' new_manager)))
       = snd (getOrCreateWorkspace server_ok ''/a#typescript-lsp'' new_manager)
   \<and> fst (getOrCreateWorkspace server_ok ''/b#typescript-lsp''
          (snd (getOrCreateWorkspace server_ok ''/a#typescript-lsp'' new_manager))) = Inr 1"
proof -
  let ?m1 = "snd (getOrCreateWorkspace server_ok ''/a#typescript-lsp'' new_manager)"
  let ?m2 = "snd (getOrCreateWorkspace server_ok ''/b#typescript-lsp'' ?m1)"
  have f1: "fst (getOrCreateWorkspace server_ok ''/a#typescript-lsp'' new_manager) = Inr 0"
    and ws1: "workspaces ?m1 = [(''/a#typescript-lsp'', 0)]" and h1: "length (heap ?m1) = 1"
    by (simp_all add: getOrCreateWorkspace_new initialize_server_ok new_manager_def)
  have f2: "fst (getOrCreateWorkspace server_ok ''/b#typescript-lsp'' ?m1) = Inr 1"
    using ws1 h1 by (simp add: getOrCreateWorkspace_new initialize_server_ok)
  have first: "getOrCreateWorkspace server_ok ''/a#typescript-lsp'' new_manager = (Inr 0, ?m1)"
    using f1 by (simp add: prod_eq_iff)
  have second: "getOrCreateWorkspace server_ok ''/b#typescript-lsp'' ?m1 = (Inr 1, ?m2)"
    using f2 by (simp add: prod_eq_iff)
  have ne: "''/b#typescript-lsp'' \<noteq> ''/a#typescript-lsp''" by simp
  note c6 = C6_workspace_reuse [OF first, of server_ok "''/b#typescript-lsp''" 1 ?m2]
  from c6 have same: "getOrCreateWorkspace server_ok ''/a#typescript-lsp'' ?m1 = (Inr 0, ?m1)"
    by (rule conjunct1)
  from c6 wf_new_manager ne second have diff: "(1::nat) \<noteq> 0"
    by blast
  from same have s1: "fst (getOrCreateWorkspace server_ok ''/a#typescript-lsp'' ?m1) = Inr 0"
    and s2: "snd (getOrCreateWorkspace server_ok ''/a#typescript-lsp'' ?m1) = ?m1"
    by simp_all
  from f1 s1 s2 f2 show ?thesis by (intro conjI)
qed

text \<open>
  C7. For a key that is not registered: when \<open>initialize\<close> of the new client throws,
  \<open>getOrCreateWorkspace\<close> throws the same error and the manager is unchanged, so the key
  is still not registered. And whenever the key is registered after the call, the call
  returned the new client, \<open>initialize\<close> threw nothing and the registered client is
  initialized.
\<close>

theorem C7_failed_initialization_not_registered:
  assumes absent: "map_of (workspaces mgr) path = None"
  shows "(initialize env (new_client path) = (Some e, c)
            \<longrightarrow> getOrCreateWorkspace env path mgr = (Inl e, mgr))
     \<and> (getOrCreateWorkspace env path mgr = (res, mgr')
            \<and> map_of (workspaces mgr') path \<noteq> None
          \<longrightarrow> fst (initialize env (new_client path)) = None
              \<and> res = Inr (length (heap mgr))
              \<and> map_of (workspaces mgr') path = Some (length (heap mgr))
              \<and> heap mgr' ! length (heap mgr) = snd (initialize env (new_client path))
              \<and> initialized (heap mgr' ! length (heap mgr)))"
proof -
  have a: "getOrCreateWorkspace env path mgr = (Inl e, mgr)"
    if "initialize env (new_client path) = (Some e, c)"
    using that absent by (simp add: getOrCreateWorkspace_def)
  have init_ok: "initialized cl" if "initialize env st = (None, cl)" for st cl
    using that
    by (auto simp: initialize_def Let_def split: if_splits option.splits spawn_result.splits
          prod.splits reply.splits sum.splits)
  have b: "fst (initialize env (new_client path)) = None
      \<and> res = Inr (length (heap mgr))
      \<and> map_of (workspaces mgr') path = Some (length (heap mgr))
      \<and> heap mgr' ! length (heap mgr) = snd (initialize env (new_client path))
      \<and> initialized (heap mgr' ! length (heap mgr))"
    if "getOrCreateWorkspace env path mgr = (res, mgr')"
      and "map_of (workspaces mgr') path \<noteq> None"
  proof (cases "initialize env (new_client path)")
    case (Pair err cl)
    show ?thesis
    proof (cases err)
      case None
      with Pair that absent init_ok [of "new_client path" cl] show ?thesis
        by (auto simp: getOrCreateWorkspace_def update_conv')
    next
      case (Some e')
      with Pair that absent show ?thesis
        by (auto simp: getOrCreateWorkspace_def)
    qed
  qed
  from a b show ?thesis by blast
qed

theorem C7_failed_initialization_not_registered_witness:
  "getOrCreateWorkspace server_missing ''/a#typescript-lsp'' new_manager
     = (Inl (Error ''Failed to start TypeScript Language Server: spawn typescript-language-server ENOENT''),
        new_manager)
   \<and> map_of (workspaces (snd (getOrCreateWorkspace server_ok ''/a#typescript-lsp'' new_manager)))
         ''/a#typescript-lsp'' = Some 0
   \<and> initialized (heap (snd (getOrCreateWorkspace server_ok ''/a#typescript-lsp'' new_manager)) ! 0)"
proof -
  have absent: "map_of (workspaces new_manager) ''/a#typescript-lsp'' = None"
    by (simp add: new_manager_def)
  have fails: "initialize server_missing (new_client ''/a#typescript-lsp'')
      = (Some (Error ''Failed to start TypeScript Language Server: spawn typescript-language-server ENOENT''),
         snd (initialize server_missing (new_client ''/a#typescript-lsp'')))"
    using initialize_server_missing [of "''/a#typescript-lsp''"] by (simp add: prod_eq_iff)
  let ?call = "getOrCreateWorkspace server_ok ''/a#typescript-lsp'' new_manager"
  have call: "?call = (fst ?call, snd ?call)" by simp
  have reg: "map_of (workspaces (snd ?call)) ''/a#typescript-lsp'' \<noteq> None"
    by (simp add: getOrCreateWorkspace_new initialize_server_ok new_manager_def)
  have len: "length (heap new_manager) = 0" by (simp add: new_manager_def)
  note c7a = C7_failed_initialization_not_registered [OF absent, of server_missing _ _ "fst ?call" "snd ?call", THEN conjunct1]
  note c7b = C7_failed_initialization_not_registered [OF absent, of server_ok _ _ "fst ?call" "snd ?call", THEN conjunct2,
      unfolded len]
  from c7a fails have a: "getOrCreateWorkspace server_missing ''/a#typescript-lsp'' new_manager
     = (Inl (Error ''Failed to start TypeScript Language Server: spawn typescript-language-server ENOENT''),
        new_manager)"
    by (rule mp)
  from call reg have "?call = (fst ?call, snd ?call)
      \<and> map_of (workspaces (snd ?call)) ''/a#typescript-lsp'' \<noteq> None"
    by (rule conjI)
  with c7b have b: "fst (initialize server_ok (new_client ''/a#typescript-lsp'')) = None
      \<and> fst ?call = Inr 0
      \<and> map_of (workspaces (snd ?call)) ''/a#typescript-lsp'' = Some 0
      \<and> heap (snd ?call) ! 0 = snd (initialize server_ok (new_client ''/a#typescript-lsp''))
      \<and> initialized (heap (snd ?call) ! 0)"
    by (rule mp)
  from b have b1: "map_of (workspaces (snd ?call)) ''/a#typescript-lsp'' = Some 0"
    by (elim conjE)
  from b have b2: "initialized (heap (snd ?call) ! 0)"
    by (elim conjE)
  from a b1 b2 show ?thesis by (intro conjI)
qed

section \<open>Closing every workspace\<close>

lemma process_settle [simp]: "process (settle q out st) = process st"
  by (simp add: settle_def)

lemma process_handleMessage [simp]: "process (handleMessage msg st) = process st"
  by (simp add: handleMessage_def Let_def split: option.splits rpc_error_value.splits)

lemma process_sendRequest [simp]: "process (snd (sendRequest m ps st)) = process st"
  by (simp add: sendRequest_unfold Let_def split: option.splits)

lemma process_fireTimer [simp]: "process (fireTimer k st) = process st"
  by (simp add: fireTimer_def requestTimeout_def split: prod.splits)

lemma process_notified [simp]:
  "process (case sendNotification m ps st of Inl e \<Rightarrow> st | Inr st' \<Rightarrow> st') = process st"
  by (auto split: sum.splits dest: sendNotification_Inr)

lemma closed_cleanup: "closed (cleanup st)"
  by (simp add: closed_def cleanup_fields)

lemma killed_cleanup: "process st = Some h \<Longrightarrow> h \<in> set (killed (cleanup st))"
  by (simp add: cleanup_fields)

lemma shutdown_cases:
  assumes "shutdown rep st = Some c"
  obtains st' where "c = cleanup st'" and "process st' = process st"
proof (cases "initialized st")
  case False
  with assms have "c = cleanup st" by (simp add: shutdown_def)
  then show ?thesis by (rule that) simp
next
  case True
  obtain p st1 where s: "sendRequest ''shutdown'' JNull st = (p, st1)"
    by (cases "sendRequest ''shutdown'' JNull st")
  then have st1: "st1 = snd (sendRequest ''shutdown'' JNull st)" by simp
  have p1: "process st1 = process st" unfolding st1 by simp
  show ?thesis
  proof (cases "promises st1 ! p")
    case (Some out)
    with True s assms have "c = cleanup st1" by (simp add: shutdown_def)
    then show ?thesis by (rule that) (simp add: p1)
  next
    case None
    show ?thesis
    proof (cases rep)
      case (Result r)
      with True s None assms have "c = cleanup
          (case sendNotification ''exit'' JNull (handleMessage (response (requestId st1) r) st1) of
             Inl e \<Rightarrow> handleMessage (response (requestId st1) r) st1 | Inr st3 \<Rightarrow> st3)"
        by (simp add: shutdown_def Let_def)
      then show ?thesis by (rule that) (simp add: p1)
    next
      case (Failure e)
      with True s None assms
      have "c = cleanup (handleMessage (error_response (requestId st1) e) st1)"
        by (simp add: shutdown_def)
      then show ?thesis by (rule that) (simp add: p1)
    next
      case Silence
      with True s None assms
      have "c = cleanup (fireTimer (length (timers st1) - 1) (st1\<lparr>now := now st1 + 10000\<rparr>))"
        by (simp add: shutdown_def)
      then show ?thesis by (rule that) (simp add: p1)
    next
      case Exit
      with True s None assms show ?thesis by (simp add: shutdown_def)
    qed
  qed
qed

lemma shutdown_closed:
  assumes "shutdown rep st = Some c"
  shows "closed c" and "process st = Some h \<Longrightarrow> h \<in> set (killed c)"
  using assms by (auto elim!: shutdown_cases simp: closed_cleanup killed_cleanup)

lemma shutdown_completes: "rep \<noteq> Exit \<Longrightarrow> shutdown rep st \<noteq> None"
  by (cases rep) (auto simp: shutdown_def Let_def split: prod.splits option.splits)

lemma shutdownAll_completes:
  "\<forall>c \<in> set cs. rep c \<noteq> Exit \<Longrightarrow> shutdownAll rep cs h \<noteq> None"
proof (induction cs arbitrary: h)
  case Nil
  then show ?case by simp
next
  case (Cons c cs)
  then have "shutdown (rep c) (h ! c) \<noteq> None" by (simp add: shutdown_completes)
  then obtain c' where "shutdown (rep c) (h ! c) = Some c'" by blast
  with Cons show ?case by simp
qed

lemma shutdownAll_closed:
  assumes "shutdownAll rep cs h = Some h'" and "distinct cs" and "\<forall>c \<in> set cs. c < length h"
  shows "length h' = length h
    \<and> (\<forall>c. c \<notin> set cs \<longrightarrow> h' ! c = h ! c)
    \<and> (\<forall>c \<in> set cs. closed (h' ! c)
          \<and> (\<forall>p. process (h ! c) = Some p \<longrightarrow> p \<in> set (killed (h' ! c))))"
  using assms
proof (induction cs arbitrary: h)
  case Nil
  then show ?case by simp
next
  case (Cons c cs)
  from Cons.prems(1) obtain c' where sd: "shutdown (rep c) (h ! c) = Some c'"
    and rest: "shutdownAll rep cs (h[c := c']) = Some h'"
    by (auto split: option.splits)
  from Cons.prems have d: "distinct cs" and notin: "c \<notin> set cs" and lt: "c < length h"
    and lts: "\<forall>x \<in> set cs. x < length (h[c := c'])" by simp_all
  from Cons.IH [OF rest d lts]
  have len: "length h' = length h"
    and keep: "\<And>x. x \<notin> set cs \<Longrightarrow> h' ! x = (h[c := c']) ! x"
    and cl: "\<And>x. x \<in> set cs \<Longrightarrow> closed (h' ! x)
          \<and> (\<forall>p. process ((h[c := c']) ! x) = Some p \<longrightarrow> p \<in> set (killed (h' ! x)))"
    by simp_all
  have here: "h' ! c = c'" using keep [OF notin] lt by simp
  have "closed (h' ! x) \<and> (\<forall>p. process (h ! x) = Some p \<longrightarrow> p \<in> set (killed (h' ! x)))"
    if "x \<in> set (c # cs)" for x
  proof (cases "x = c")
    case True
    with here shutdown_closed [OF sd] show ?thesis by auto
  next
    case False
    with that have "x \<in> set cs" by simp
    from cl [OF this] False show ?thesis by simp
  qed
  moreover have "h' ! x = h ! x" if "x \<notin> set (c # cs)" for x
    using that keep [of x] by simp
  ultimately show ?case using len by blast
qed

text \<open>
  C8. \<open>closeAll\<close> completes when no subprocess exits before it has answered its \<open>shutdown\<close>
  request. When \<open>closeAll\<close> has completed, the map is empty and every client it held is
  closed: not initialized, no pending request, no open document, no subprocess handle;
  and the subprocess the client had was killed.
\<close>

theorem C8_closeAll_closes_every_client:
  assumes wf: "wf_manager mgr"
  shows "((\<forall>c \<in> set (map snd (workspaces mgr)). rep c \<noteq> Exit) \<longrightarrow> closeAll rep mgr \<noteq> None)
     \<and> (closeAll rep mgr = Some mgr' \<longrightarrow>
          workspaces mgr' = []
          \<and> (\<forall>c \<in> set (map snd (workspaces mgr)).
                \<not> initialized (heap mgr' ! c)
                \<and> pendingRequests (heap mgr' ! c) = []
                \<and> openDocuments (heap mgr' ! c) = []
                \<and> process (heap mgr' ! c) = None
                \<and> (\<forall>p. process (heap mgr ! c) = Some p \<longrightarrow> p \<in> set (killed (heap mgr' ! c)))))"
proof -
  have a: "closeAll rep mgr \<noteq> None" if "\<forall>c \<in> set (map snd (workspaces mgr)). rep c \<noteq> Exit"
    using shutdownAll_completes [OF that, of "heap mgr"]
    by (auto simp: closeAll_def split: option.splits)
  have b: "workspaces mgr' = []
      \<and> (\<forall>c \<in> set (map snd (workspaces mgr)).
            \<not> initialized (heap mgr' ! c)
            \<and> pendingRequests (heap mgr' ! c) = []
            \<and> openDocuments (heap mgr' ! c) = []
            \<and> process (heap mgr' ! c) = None
            \<and> (\<forall>p. process (heap mgr ! c) = Some p \<longrightarrow> p \<in> set (killed (heap mgr' ! c))))"
    if "closeAll rep mgr = Some mgr'"
  proof -
    from that obtain h' where all: "shutdownAll rep (map snd (workspaces mgr)) (heap mgr) = Some h'"
      and m: "mgr' = mgr\<lparr>heap := h', workspaces := []\<rparr>"
      by (auto simp: closeAll_def split: option.splits)
    from wf have "distinct (map snd (workspaces mgr))"
      and "\<forall>c \<in> set (map snd (workspaces mgr)). c < length (heap mgr)"
      by (simp_all add: wf_manager_def)
    from shutdownAll_closed [OF all this] m show ?thesis
      by (simp add: closed_def)
  qed
  from a b show ?thesis by blast
qed

theorem C8_closeAll_closes_every_client_witness:
  "\<exists>mgr'. closeAll (\<lambda>c. Result JNull) two_workspaces = Some mgr'
     \<and> workspaces mgr' = []
     \<and> process (heap mgr' ! 0) = None \<and> process (heap mgr' ! 1) = None
     \<and> 7 \<in> set (killed (heap mgr' ! 0)) \<and> 8 \<in> set (killed (heap mgr' ! 1))
     \<and> pendingRequests (heap mgr' ! 1) = []"
proof -
  have wf: "wf_manager two_workspaces"
    by (simp add: wf_manager_def two_workspaces_def)
  note c8 = C8_closeAll_closes_every_client [OF wf, of "\<lambda>c. Result JNull"]
  from c8 [THEN conjunct1] have "closeAll (\<lambda>c. Result JNull) two_workspaces \<noteq> None"
    by simp
  then obtain mgr' where fin: "closeAll (\<lambda>c. Result JNull) two_workspaces = Some mgr'"
    by blast
  have refs: "map snd (workspaces two_workspaces) = [0, 1]"
    and p0: "process (heap two_workspaces ! 0) = Some 7"
    and p1: "process (heap two_workspaces ! 1) = Some 8"
    by (simp_all add: two_workspaces_def running_client_def)
  from c8 [of mgr', THEN conjunct2] fin refs p0 p1
  have "workspaces mgr' = []
     \<and> process (heap mgr' ! 0) = None \<and> process (heap mgr' ! 1) = None
     \<and> 7 \<in> set (killed (heap mgr' ! 0)) \<and> 8 \<in> set (killed (heap mgr' ! 1))
     \<and> pendingRequests (heap mgr' ! 1) = []"
    by simp
  with fin show ?thesis by blast
qed

section \<open>Every client is well formed\<close>

text \<open>
  A new client is well formed and every event keeps it so: \<open>wf_client\<close> holds of every
  state a client can be in.
\<close>

lemma wf_new_client: "wf_client (new_client root)"
  by (simp add: wf_client_def new_client_def)

lemma wf_updates [simp]:
  "wf_client (st\<lparr>buffer := b\<rparr>) = wf_client st"
  "wf_client (st\<lparr>emitted := ev\<rparr>) = wf_client st"
  "wf_client (st\<lparr>written := w\<rparr>) = wf_client st"
  "wf_client (st\<lparr>process := h\<rparr>) = wf_client st"
  "wf_client (st\<lparr>now := t\<rparr>) = wf_client st"
  by (simp_all add: wf_client_def)

lemma wf_handleMessage: "wf_client st \<Longrightarrow> wf_client (handleMessage msg st)"
  by (cases msg st rule: handleMessage_consider) (simp_all add: wf_complete)

lemma wf_processBuffer: "wf_client st \<Longrightarrow> wf_client (processBuffer parse st)"
  by (rule processBuffer_preserves [where P = wf_client])
     (simp_all add: wf_handleMessage)

lemma wf_cleanup: "wf_client st \<Longrightarrow> wf_client (cleanup st)"
  by (rule wf_clientI) (auto simp: cleanup_fields dest: wf_timerD)

lemma wf_fireTimer:
  assumes wf: "wf_client st" shows "wf_client (fireTimer k st)"
proof (cases k st rule: fireTimer_consider)
  case idle
  with wf show ?thesis by simp
next
  case (runs i m q d)
  let ?s = "st\<lparr>timers := take k (timers st) @ drop (Suc k) (timers st)\<rparr>"
  have sub: "set (timers ?s) \<subseteq> set (timers st)"
    using set_remove_nth [OF runs(1)] by auto
  have wfs: "wf_client ?s"
  proof (rule wf_clientI)
    fix j r assume "map_of (pendingRequests ?s) j = Some r"
    then show "r < length (promises ?s) \<and> (\<exists>n. j = IdNum n \<and> n \<le> requestId ?s)"
      using wf_pendingD [OF wf, of j r] by simp
  next
    fix j m' r d' assume "(j, m', r, d') \<in> set (timers ?s)"
    with sub have "(j, m', r, d') \<in> set (timers st)" by blast
    then show "r < length (promises ?s) \<and> (\<exists>n. j = IdNum n \<and> n \<le> requestId ?s)"
      using wf_timerD [OF wf, of j m' r d'] by simp
  qed
  with runs(4) show ?thesis by (simp add: requestTimeout_cases wf_complete)
qed

lemma wf_step: "wf_client st \<Longrightarrow> wf_client (step parse e st)"
proof (cases e)
  case (StdoutData chunk)
  assume "wf_client st"
  then have "wf_client (st\<lparr>buffer := buffer st @ chunk\<rparr>)" by simp
  then show ?thesis using StdoutData by (simp add: onData_def wf_processBuffer)
qed (auto simp: wf_sendRequest wf_fireTimer wf_cleanup
       dest!: sendNotification_Inr split: sum.splits)

lemma wf_run: "wf_client st \<Longrightarrow> wf_client (run parse es st)"
  by (induction es arbitrary: st) (simp_all add: wf_step)

section \<open>Request ids are never reused\<close>

lemma registeredIds_sendRequest:
  assumes wf: "wf_client st"
  shows "registeredIds (fst (sendRequest m ps st)) (snd (sendRequest m ps st))
         = [IdNum (requestId st + 1)]"
proof -
  let ?n = "requestId st + 1" and ?p = "length (promises st)"
  have fresh: "map_of (pendingRequests st) (IdNum ?n) = None"
  proof (cases "map_of (pendingRequests st) (IdNum ?n)")
    case (Some q)
    from wf_pendingD [OF wf Some] show ?thesis by simp
  qed simp
  have keys: "pendingRequests (snd (sendRequest m ps st)) = pendingRequests st @ [(IdNum ?n, ?p)]"
    by (simp add: sendRequest_unfold Let_def update_fresh [OF fresh] settle_def split: option.splits)
  have old: "map_of (pendingRequests st @ [(IdNum ?n, ?p)]) i \<noteq> Some ?p"
    if "i \<in> fst ` set (pendingRequests st)" for i
  proof -
    from that obtain q where q: "map_of (pendingRequests st) i = Some q"
      by (metis domD dom_map_of_conv_image_fst)
    from wf_pendingD [OF wf q] have "q < ?p" by simp
    with q show ?thesis by (simp add: map_add_def)
  qed
  have "filter (\<lambda>i. map_of (pendingRequests st @ [(IdNum ?n, ?p)]) i = Some ?p)
          (map fst (pendingRequests st)) = []"
    using old by (auto simp: filter_empty_conv)
  moreover have "map_of (pendingRequests st @ [(IdNum ?n, ?p)]) (IdNum ?n) = Some ?p"
    using fresh by (simp add: map_add_def)
  ultimately show ?thesis
    by (simp add: registeredIds_def keys sendRequest_fields(6))
qed

lemma requestIds_send:
  "requestIds parse (CallSendRequest m ps # es) st
   = registeredIds (fst (sendRequest m ps st)) (snd (sendRequest m ps st))
     @ requestIds parse es (snd (sendRequest m ps st))"
  by (simp add: case_prod_unfold)

lemma writtenIds_sendRequest:
  "writtenIds st (snd (sendRequest m ps st))
   = (case process st of None \<Rightarrow> [] | Some h \<Rightarrow> [IdNum (requestId st + 1)])"
  by (simp add: writtenIds_def sendRequest_unfold Let_def settle_def request_def
      List.map_filter_simps split: option.splits)

lemma requestIds_sorted:
  "wf_client st \<Longrightarrow>
   \<exists>ns. requestIds parse es st = map IdNum ns \<and> sorted_wrt (<) ns
        \<and> (\<forall>n \<in> set ns. requestId st < n)"
proof (induction es arbitrary: st)
  case Nil
  then show ?case by simp
next
  case (Cons e es)
  from Cons.prems have wf': "wf_client (step parse e st)" by (rule wf_step)
  from Cons.IH [OF wf'] obtain ns where ns: "requestIds parse es (step parse e st) = map IdNum ns"
    and sorted: "sorted_wrt (<) ns" and above: "\<forall>n \<in> set ns. requestId (step parse e st) < n"
    by blast
  show ?case
  proof (cases "\<exists>m ps. e = CallSendRequest m ps")
    case True
    then obtain m ps where e: "e = CallSendRequest m ps" by blast
    have "requestIds parse (e # es) st = map IdNum ((requestId st + 1) # ns)"
      using registeredIds_sendRequest [OF Cons.prems, of m ps] ns
      by (simp add: e requestIds_send del: requestIds.simps)
    moreover have "sorted_wrt (<) ((requestId st + 1) # ns)"
      using sorted above by (auto simp: e requestId_sendRequest)
    moreover have "\<forall>n \<in> set ((requestId st + 1) # ns). requestId st < n"
      using above by (auto simp: e requestId_sendRequest)
    ultimately show ?thesis by blast
  next
    case False
    then have "requestIds parse (e # es) st = map IdNum ns"
      using ns by (cases e) simp_all
    moreover have "\<forall>n \<in> set ns. requestId st < n"
      using above requestId_step_mono [of st parse e] by auto
    ultimately show ?thesis using sorted by blast
  qed
qed

lemma requestIds_consecutive:
  "wf_client st \<Longrightarrow>
   requestIds parse (map (\<lambda>(m, p). CallSendRequest m p) calls) st
   = map (\<lambda>k. IdNum (requestId st + 1 + int k)) [0..<length calls]"
proof (induction calls arbitrary: st)
  case Nil
  then show ?case by simp
next
  case (Cons c calls)
  obtain m p where c: "c = (m, p)" by (cases c)
  have "[0..<Suc (length calls)] = 0 # map Suc [0..<length calls]"
    by (simp add: upt_conv_Cons map_Suc_upt del: upt_Suc)
  then have "map (\<lambda>k. IdNum (requestId st + 1 + int k)) [0..<length (c # calls)]
      = IdNum (requestId st + 1) # map (\<lambda>k. IdNum (requestId st + 1 + 1 + int k)) [0..<length calls]"
    by (simp add: comp_def add.commute add.left_commute del: upt_Suc)
  with c Cons.IH [OF wf_sendRequest [OF Cons.prems], of m p]
    registeredIds_sendRequest [OF Cons.prems, of m p]
  show ?case
    by (simp add: requestId_sendRequest requestIds_send del: upt_Suc requestIds.simps)
qed

lemma sentIds_consecutive:
  "process st \<noteq> None \<Longrightarrow>
   sentIds parse (map (\<lambda>(m, p). CallSendRequest m p) calls) st
   = map (\<lambda>k. IdNum (requestId st + 1 + int k)) [0..<length calls]"
proof (induction calls arbitrary: st)
  case Nil
  then show ?case by simp
next
  case (Cons c calls)
  obtain m p where c: "c = (m, p)" by (cases c)
  have "[0..<Suc (length calls)] = 0 # map Suc [0..<length calls]"
    by (simp add: upt_conv_Cons map_Suc_upt del: upt_Suc)
  then have "map (\<lambda>k. IdNum (requestId st + 1 + int k)) [0..<length (c # calls)]
      = IdNum (requestId st + 1) # map (\<lambda>k. IdNum (requestId st + 1 + 1 + int k)) [0..<length calls]"
    by (simp add: comp_def add.commute add.left_commute del: upt_Suc)
  moreover have "process (snd (sendRequest m p st)) \<noteq> None"
    using Cons.prems by (simp add: process_sendRequest)
  ultimately show ?case
    using c Cons.IH [of "snd (sendRequest m p st)"] Cons.prems
    by (simp add: requestId_sendRequest writtenIds_sendRequest del: upt_Suc split: option.splits)
qed

lemma sentIds_subseq:
  "wf_client st \<Longrightarrow> subseq (sentIds parse es st) (requestIds parse es st)"
proof (induction es arbitrary: st)
  case Nil
  then show ?case by simp
next
  case (Cons e es)
  from Cons.prems have wf': "wf_client (step parse e st)" by (rule wf_step)
  note IH = Cons.IH [OF wf']
  show ?case
  proof (cases "\<exists>m ps. e = CallSendRequest m ps")
    case True
    then obtain m ps where e: "e = CallSendRequest m ps" by blast
    have "subseq (writtenIds st (snd (sendRequest m ps st))) [IdNum (requestId st + 1)]"
      by (simp add: writtenIds_sendRequest split: option.splits)
    with IH show ?thesis
      using registeredIds_sendRequest [OF Cons.prems, of m ps]
        list_emb_append_mono [of "(=)" "writtenIds st (snd (sendRequest m ps st))"
          "[IdNum (requestId st + 1)]" "sentIds parse es (snd (sendRequest m ps st))"
          "requestIds parse es (snd (sendRequest m ps st))"]
      by (simp add: e requestIds_send del: requestIds.simps)
  next
    case False
    with IH show ?thesis by (cases e) simp_all
  qed
qed

lemma requestIds_unused:
  assumes wf: "wf_client st" and i: "i \<in> set (requestIds parse es st)"
  shows "map_of (pendingRequests st) i = None \<and> (\<forall>(j, m, q, d) \<in> set (timers st). j \<noteq> i)"
proof -
  from requestIds_sorted [OF wf, of parse es] i obtain n where n: "i = IdNum n" "requestId st < n"
    by auto
  have "map_of (pendingRequests st) i = None"
  proof (cases "map_of (pendingRequests st) i")
    case (Some q)
    from wf_pendingD [OF wf Some] n show ?thesis by auto
  qed simp
  moreover have "j \<noteq> i" if "(j, m, q, d) \<in> set (timers st)" for j m q d
    using wf_timerD [OF wf that] n by auto
  ultimately show ?thesis by auto
qed


lemma sorted_wrt_less_distinct: "sorted_wrt (<) (xs :: int list) \<Longrightarrow> distinct xs"
  by (induction xs) auto

lemma requestIds_distinct:
  assumes "wf_client st" shows "distinct (requestIds parse es st)"
proof -
  from requestIds_sorted [OF assms, of parse es] obtain ns
    where "requestIds parse es st = map IdNum ns" and "sorted_wrt (<) ns" by blast
  then show ?thesis by (simp add: distinct_map sorted_wrt_less_distinct inj_on_def)
qed

text \<open>
  C5. The id that a call of \<open>sendRequest\<close> gives to its request is read where the code
  uses it: \<open>requestIds\<close> lists, call by call, the key under which the map
  \<open>pendingRequests\<close> holds the callbacks of the promise that the call returns, and
  \<open>sentIds\<close> the id of the message that the call writes to the subprocess. The counter
  \<open>requestId\<close> is a JavaScript number that only \<open>sendRequest\<close> changes, by one each
  time; it is modelled by an integer, numbers being exact far beyond any count of requests
  a session can make. In every well-formed client (every client is, see above):
  \<open>N\<close> consecutive \<open>sendRequest\<close> calls register the ids \<open>r + 1, ..., r + N\<close>, where
  \<open>r\<close> is the counter before, and while the subprocess runs these are the ids of the
  \<open>N\<close> messages written; in any run of the client, whatever else happens between the
  calls (responses, timeouts, the exit of the subprocess), the ids registered are numbers,
  strictly increasing, hence pairwise distinct, greater than the counter, and none of them
  is an id that the map or a timeout held before the run; and the ids of the messages
  written are among them, in the same order.
\<close>

theorem C5_request_ids_increase:
  assumes "wf_client st"
  shows "requestIds parse (map (\<lambda>(m, p). CallSendRequest m p) calls) st
           = map (\<lambda>k. IdNum (requestId st + 1 + int k)) [0..<length calls]
     \<and> (process st \<noteq> None \<longrightarrow>
          sentIds parse (map (\<lambda>(m, p). CallSendRequest m p) calls) st
            = map (\<lambda>k. IdNum (requestId st + 1 + int k)) [0..<length calls])
     \<and> (\<exists>ns. requestIds parse es st = map IdNum ns \<and> sorted_wrt (<) ns
             \<and> (\<forall>n \<in> set ns. requestId st < n))
     \<and> distinct (requestIds parse es st)
     \<and> (\<forall>i \<in> set (requestIds parse es st).
           map_of (pendingRequests st) i = None
           \<and> (\<forall>(j, m, q, d) \<in> set (timers st). j \<noteq> i))
     \<and> subseq (sentIds parse es st) (requestIds parse es st)"
proof -
  have consecutive: "requestIds parse (map (\<lambda>(m, p). CallSendRequest m p) calls) st
      = map (\<lambda>k. IdNum (requestId st + 1 + int k)) [0..<length calls]"
    using assms by (rule requestIds_consecutive)
  have sent: "process st \<noteq> None \<longrightarrow>
      sentIds parse (map (\<lambda>(m, p). CallSendRequest m p) calls) st
      = map (\<lambda>k. IdNum (requestId st + 1 + int k)) [0..<length calls]"
    by (simp add: sentIds_consecutive)
  have increasing: "\<exists>ns. requestIds parse es st = map IdNum ns \<and> sorted_wrt (<) ns
      \<and> (\<forall>n \<in> set ns. requestId st < n)"
    using assms by (rule requestIds_sorted)
  have different: "distinct (requestIds parse es st)"
    using assms by (rule requestIds_distinct)
  have unused: "\<forall>i \<in> set (requestIds parse es st).
      map_of (pendingRequests st) i = None \<and> (\<forall>(j, m, q, d) \<in> set (timers st). j \<noteq> i)"
    using requestIds_unused [OF assms] by blast
  have sub: "subseq (sentIds parse es st) (requestIds parse es st)"
    using assms by (rule sentIds_subseq)
  from consecutive sent increasing different unused sub show ?thesis by (intro conjI)
qed

theorem C5_request_ids_increase_witness:
  "wf_client running_client
   \<and> requestIds (\<lambda>s. None)
       (map (\<lambda>(m, p). CallSendRequest m p)
          [(''textDocument/hover'', JNull), (''workspace/symbol'', JNull), (''shutdown'', JNull)])
       running_client = [IdNum 2, IdNum 3, IdNum 4]
   \<and> sentIds (\<lambda>s. None)
       (map (\<lambda>(m, p). CallSendRequest m p)
          [(''textDocument/hover'', JNull), (''workspace/symbol'', JNull), (''shutdown'', JNull)])
       running_client = [IdNum 2, IdNum 3, IdNum 4]
   \<and> distinct (requestIds (\<lambda>s. None)
        [CallSendRequest ''textDocument/hover'' JNull, ProcessExit,
         CallSendRequest ''workspace/symbol'' JNull] running_client)"
proof -
  have wf: "wf_client running_client"
    by (simp add: wf_client_def running_client_def new_client_def)
  have pr: "process running_client \<noteq> None"
    by (simp add: running_client_def)
  have r: "requestId running_client = 1"
    by (simp add: running_client_def)
  note c5 = C5_request_ids_increase [OF wf, of "\<lambda>s. None"
        "[(''textDocument/hover'', JNull), (''workspace/symbol'', JNull), (''shutdown'', JNull)]"
        "[CallSendRequest ''textDocument/hover'' JNull, ProcessExit,
          CallSendRequest ''workspace/symbol'' JNull]", unfolded r]
  from c5 have a: "requestIds (\<lambda>s. None)
       (map (\<lambda>(m, p). CallSendRequest m p)
          [(''textDocument/hover'', JNull), (''workspace/symbol'', JNull), (''shutdown'', JNull)])
       running_client = map (\<lambda>k. IdNum (1 + 1 + int k)) [0..<length
          [(''textDocument/hover'', JNull), (''workspace/symbol'', JNull), (''shutdown'', JNull :: json)]]"
    by (elim conjE)
  from c5 have "process running_client \<noteq> None \<longrightarrow> sentIds (\<lambda>s. None)
       (map (\<lambda>(m, p). CallSendRequest m p)
          [(''textDocument/hover'', JNull), (''workspace/symbol'', JNull), (''shutdown'', JNull)])
       running_client = map (\<lambda>k. IdNum (1 + 1 + int k)) [0..<length
          [(''textDocument/hover'', JNull), (''workspace/symbol'', JNull), (''shutdown'', JNull :: json)]]"
    by (elim conjE)
  from this pr have b: "sentIds (\<lambda>s. None)
       (map (\<lambda>(m, p). CallSendRequest m p)
          [(''textDocument/hover'', JNull), (''workspace/symbol'', JNull), (''shutdown'', JNull)])
       running_client = map (\<lambda>k. IdNum (1 + 1 + int k)) [0..<length
          [(''textDocument/hover'', JNull), (''workspace/symbol'', JNull), (''shutdown'', JNull :: json)]]"
    by (rule mp)
  from c5 have c: "distinct (requestIds (\<lambda>s. None)
        [CallSendRequest ''textDocument/hover'' JNull, ProcessExit,
         CallSendRequest ''workspace/symbol'' JNull] running_client)"
    by (elim conjE)
  have e: "map (\<lambda>k. IdNum (1 + 1 + int k)) [0..<length
          [(''textDocument/hover'', JNull), (''workspace/symbol'', JNull), (''shutdown'', JNull :: json)]]
        = [IdNum 2, IdNum 3, IdNum 4]"
    by (simp add: upt_rec)
  from wf a b c show ?thesis unfolding e by (intro conjI)
qed

end
